theory Spec2Isabelle
  imports Complex_Main "HOL-Library.AList" "HOL-Library.Sublist"
    "HOL-Library.List_Lexorder" "HOL-Library.Char_ord"
begin

section \<open>Python values shared by the modules\<close>

text \<open>
  Exceptions and process exits of the Python source are values: every function that can
  raise returns \<open>error + 'a\<close>, with \<open>Inl\<close> for the exception.
\<close>

datatype error =
    IndexError
  | KeyError
  | ValueError
  | NameError
  | AssertionError
  | FileNotFoundError
  | SystemExit nat

text \<open>
  \<open>int(n * 0.9)\<close> and \<open>int(n * 0.85)\<close>: the product with the decimal fraction \<open>p / q\<close>,
  truncated towards zero. The source computes the product in double precision; for every
  count below \<open>2 ^ 50\<close> the double product truncates to the same integer as the exact one.
\<close>

definition int_frac :: "int \<Rightarrow> int \<Rightarrow> int \<Rightarrow> int" where
  "int_frac n p q = sgn n * ((\<bar>n\<bar> * p) div q)"

section \<open>Trimming presets\<close>

subsection \<open>\<open>msa_build.trim_msa\<close> (msa.py): the command-line path\<close>

text \<open>
  The Gblocks call is
  \<open>'%s %s -t=d -b2=%d -b1=%d -b4=%d -b5=%s ...' % (binary, raw_msa, flank, cons, b4, gaps)\<close>;
  the record holds the four values that depend on the mode.
\<close>

record gblocks_args =
  b2 :: int
  b1 :: int
  b4 :: int
  b5 :: string

datatype trim_action = Copy_raw | Run_gblocks gblocks_args

definition trim_msa :: "string \<Rightarrow> int \<Rightarrow> trim_action" where
  "trim_msa gblocks_mode seq_count =
     (if gblocks_mode = ''skip'' then Copy_raw
      else
        (let b4_0 = 5 in
         if gblocks_mode = ''relaxed'' then
           (let cons = seq_count div 2 + 1; flank = cons; gaps = [''n'', ''h'', ''a''] ! 1
            in Run_gblocks \<lparr>b2 = flank, b1 = cons, b4 = b4_0, b5 = gaps\<rparr>)
         else if gblocks_mode = ''balanced'' then
           (let cons = seq_count div 2 + 1;
                flank = min (seq_count div 4 * 3 + 1) seq_count;
                gaps = [''n'', ''h'', ''a''] ! 1
            in Run_gblocks \<lparr>b2 = flank, b1 = cons, b4 = b4_0, b5 = gaps\<rparr>)
         else if gblocks_mode = ''default'' then
           (let cons = seq_count div 2 + 1;
                flank = min (int_frac seq_count 85 100 + 1) seq_count;
                gaps = [''n'', ''h'', ''a''] ! 0;
                b4_1 = 10
            in Run_gblocks \<lparr>b2 = flank, b1 = cons, b4 = b4_1, b5 = gaps\<rparr>)
         else
           (let cons = int_frac seq_count 9 10; flank = cons; gaps = [''n'', ''h'', ''a''] ! 0
            in Run_gblocks \<lparr>b2 = flank, b1 = cons, b4 = b4_0, b5 = gaps\<rparr>)))"

subsection \<open>\<open>gbl_page.re_preset\<close> (gtk_gbl.py): the branch on the mode\<close>

text \<open>
  \<open>re_preset_values\<close> is the first half of \<open>re_preset\<close> only: the local variables
  \<open>conserved\<close>, \<open>flank\<close>, \<open>gaps\<close>, \<open>good_block\<close> and \<open>bad_block\<close> as the branch on
  the mode leaves them. They are not yet what the page holds: \<open>re_preset\<close> below hands
  them to \<open>configure\<close>, which clamps each into the bounds of its adjustment.
\<close>

record preset_values =
  pv_conserved :: int
  pv_flank :: int
  pv_gaps :: string
  pv_good_block :: int
  pv_bad_block :: int

text \<open>
  \<open>None\<close> is the early return of mode \<open>skip\<close>; an unknown mode fails the
  \<open>assert False\<close>.
\<close>

definition re_preset_values :: "string \<Rightarrow> int \<Rightarrow> error + preset_values option" where
  "re_preset_values mode n_seqs =
     (if mode = ''skip'' then Inr None
      else if mode = ''relaxed'' then
        (let conserved = n_seqs div 2 + 1; flank = conserved
         in Inr (Some \<lparr>pv_conserved = conserved, pv_flank = flank, pv_gaps = ''half'',
                        pv_good_block = 5, pv_bad_block = 8\<rparr>))
      else if mode = ''balanced'' then
        (let conserved = n_seqs div 2 + 1; flank = min (n_seqs div 4 * 3 + 1) n_seqs
         in Inr (Some \<lparr>pv_conserved = conserved, pv_flank = flank, pv_gaps = ''half'',
                        pv_good_block = 5, pv_bad_block = 8\<rparr>))
      else if mode = ''default'' then
        (let conserved = n_seqs div 2 + 1; flank = min (int_frac n_seqs 85 100 + 1) n_seqs
         in Inr (Some \<lparr>pv_conserved = conserved, pv_flank = flank, pv_gaps = ''none'',
                        pv_good_block = 10, pv_bad_block = 8\<rparr>))
      else if mode = ''strict'' then
        (let conserved = int_frac n_seqs 9 10; flank = conserved
         in Inr (Some \<lparr>pv_conserved = conserved, pv_flank = flank, pv_gaps = ''none'',
                        pv_good_block = 10, pv_bad_block = 8\<rparr>))
      else Inl AssertionError)"

subsection \<open>The spin-button adjustments, \<open>gbl_page.edit\<close> and \<open>gbl_page.start_gbl\<close>\<close>

text \<open>
  A \<open>Gtk.Adjustment\<close> holds a value between a lower and an upper bound, all doubles
  (here reals: the source only compares, copies and takes maxima of them).
  \<open>configure(value, lower, upper, 1, 0, 0)\<close> sets the bounds and stores the value clamped
  into them, first from above and then from below (page size 0).
\<close>

record adjustment =
  val :: real
  lower :: real
  upper :: real

definition configure :: "real \<Rightarrow> real \<Rightarrow> real \<Rightarrow> adjustment" where
  "configure v lo up = \<lparr>val = max (min v up) lo, lower = lo, upper = up\<rparr>"

text \<open>The parameter list \<open>[cons, flank, bad, good, gaps]\<close> kept in \<open>iface.tempspace.params\<close>.\<close>

record gbl_params =
  p_cons :: real
  p_flank :: real
  p_bad :: real
  p_good :: real
  p_gaps :: char

text \<open>
  The part of \<open>iface\<close> the trimming page reads and writes. \<open>params = None\<close> is the
  empty list the constructor stores; \<open>gaps\<close> is the active text of the gap combo box.
\<close>

record iface =
  gbl_preset :: string
  conserved :: adjustment
  flank :: adjustment
  good_block :: adjustment
  bad_block :: adjustment
  gaps :: string
  params :: "gbl_params option"

definition re_preset :: "string \<Rightarrow> int \<Rightarrow> int \<Rightarrow> iface \<Rightarrow> error + iface" where
  "re_preset mode n_sites n_seqs ifc =
     (case re_preset_values mode n_seqs of
        Inl e \<Rightarrow> Inl e
      | Inr None \<Rightarrow> Inr ifc
      | Inr (Some pv) \<Rightarrow>
          Inr (ifc\<lparr>conserved := configure (real_of_int (pv_conserved pv))
                                   (real_of_int (n_seqs div 2 + 1)) (real_of_int n_seqs),
                    flank := configure (real_of_int (pv_flank pv))
                               (real_of_int (n_seqs div 2 + 1)) (real_of_int n_seqs),
                    good_block := configure (real_of_int (pv_good_block pv)) 2
                                    (real_of_int n_sites),
                    bad_block := configure (real_of_int (pv_bad_block pv)) 0
                                   (real_of_int n_sites),
                    gaps := pv_gaps pv\<rparr>))"

text \<open>
  \<open>edit\<close> is connected to the \<open>changed\<close> signal of the two entries \<open>conserved\<close> and
  \<open>flank\<close>; \<open>wi.get_adjustment()\<close> is the adjustment of the entry that fired.
\<close>

datatype entry = Conserved_entry | Flank_entry

definition edit :: "entry \<Rightarrow> iface \<Rightarrow> iface" where
  "edit wi ifc =
     (case wi of
        Flank_entry \<Rightarrow> ifc
      | Conserved_entry \<Rightarrow>
          (let adj = conserved ifc
           in ifc\<lparr>flank := configure (max (val adj) (val (flank ifc))) (val adj)
                                (upper (flank ifc))\<rparr>))"

text \<open>
  \<open>start_gbl\<close>: the three early returns (no genes, thread busy, nothing to redo) are
  the flags of \<open>start_env\<close>; \<open>Params_unchanged\<close> is the return after the notification
  "MSA already trimmed". \<open>Started\<close> carries the interface state the worker thread
  \<open>do_gbl\<close> reads.
\<close>

record start_env =
  has_genes :: bool
  thread_alive :: bool
  shortcut :: bool

datatype start_result =
    Not_started
  | Params_unchanged
  | Start_failed error
  | Started iface

definition start_gbl :: "start_env \<Rightarrow> iface \<Rightarrow> start_result" where
  "start_gbl env ifc =
     (if \<not> has_genes env then Not_started
      else if thread_alive env then Not_started
      else if shortcut env then Not_started
      else if gbl_preset ifc \<noteq> ''skip'' then
        (let cons = val (conserved ifc); flank0 = val (flank ifc);
             good = val (good_block ifc); bad = val (bad_block ifc)
         in case gaps ifc of
              [] \<Rightarrow> Start_failed IndexError
            | g # _ \<Rightarrow>
                (let flank1 = (if flank0 < cons then cons else flank0);
                     ps = \<lparr>p_cons = cons, p_flank = flank1, p_bad = bad, p_good = good,
                             p_gaps = g\<rparr>
                 in if params ifc = Some ps then Params_unchanged
                    else Started (ifc\<lparr>params := Some ps\<rparr>)))
      else Started ifc)"

text \<open>
  The base call of \<open>do_gbl\<close>:
  \<open>'... -b1=%d -b2=%d -b3=%d -b4=%d -b5=%s ...' % tuple([binary, '%s'] + params)\<close>.
  \<open>%d\<close> prints a float truncated towards zero.
\<close>

definition fmt_d :: "real \<Rightarrow> int" where
  "fmt_d x = (if 0 \<le> x then \<lfloor>x\<rfloor> else \<lceil>x\<rceil>)"

record gbl_command =
  c_b1 :: int
  c_b2 :: int
  c_b3 :: int
  c_b4 :: int
  c_b5 :: char

definition base_call :: "gbl_params \<Rightarrow> gbl_command" where
  "base_call ps = \<lparr>c_b1 = fmt_d (p_cons ps), c_b2 = fmt_d (p_flank ps),
                    c_b3 = fmt_d (p_bad ps), c_b4 = fmt_d (p_good ps), c_b5 = p_gaps ps\<rparr>"

text \<open>The command a click on the trimming page launches, if it launches one.\<close>

definition launched_command :: "start_env \<Rightarrow> iface \<Rightarrow> gbl_command option" where
  "launched_command env ifc =
     (case start_gbl env ifc of
        Started ifc' \<Rightarrow>
          (if gbl_preset ifc' \<noteq> ''skip'' then map_option base_call (params ifc') else None)
      | _ \<Rightarrow> None)"

section \<open>Python strings and dictionaries\<close>

text \<open>
  Strings are lists of 8-bit characters; the alignment and report files are ASCII.
  \<open>str.isspace\<close> on ASCII: tab, line feed, vertical tab, form feed, carriage return,
  the four separators \<open>0x1c\<close> to \<open>0x1f\<close> and the blank.
\<close>

definition is_space :: "char \<Rightarrow> bool" where
  "is_space c = (let n = (of_char c :: nat) in (9 \<le> n \<and> n \<le> 13) \<or> (28 \<le> n \<and> n \<le> 32))"

definition strip :: "string \<Rightarrow> string" where
  "strip s = rev (dropWhile is_space (rev (dropWhile is_space s)))"

definition startswith :: "string \<Rightarrow> string \<Rightarrow> bool" where
  "startswith s p = prefix p s"

definition endswith :: "string \<Rightarrow> string \<Rightarrow> bool" where
  "endswith s p = suffix p s"

text \<open>
  \<open>s.split(sep)\<close> for a separator that is not empty (the source splits at two
  literals): the pieces between the occurrences of \<open>sep\<close>, scanned from the left.
  \<open>acc\<close> holds the current piece, reversed.
\<close>

fun split_at :: "string \<Rightarrow> string \<Rightarrow> string \<Rightarrow> string list" where
  "split_at sep acc [] = [rev acc]"
| "split_at sep acc (c # cs) =
     (if sep \<noteq> [] \<and> prefix sep (c # cs)
      then rev acc # split_at sep [] (drop (length sep) (c # cs))
      else split_at sep (c # acc) cs)"

definition split :: "string \<Rightarrow> string \<Rightarrow> string list" where
  "split s sep = split_at sep [] s"

text \<open>
  \<open>int(s)\<close> on a string: blanks around the number are dropped, one sign is allowed, and
  the digits may be grouped by single underscores. Anything else is a \<open>ValueError\<close>.
\<close>

definition is_digit :: "char \<Rightarrow> bool" where
  "is_digit c = (let n = (of_char c :: nat) in 48 \<le> n \<and> n \<le> 57)"

definition digit_val :: "char \<Rightarrow> nat" where
  "digit_val c = of_char c - 48"

fun digits_from :: "nat \<Rightarrow> string \<Rightarrow> nat option" where
  "digits_from acc [] = Some acc"
| "digits_from acc [c] = (if is_digit c then Some (10 * acc + digit_val c) else None)"
| "digits_from acc (c # d # ds) =
     (if is_digit c then digits_from (10 * acc + digit_val c) (d # ds)
      else if c = CHR ''_'' \<and> is_digit d then digits_from (10 * acc + digit_val d) ds
      else None)"

definition py_int :: "string \<Rightarrow> error + int" where
  "py_int s =
     (case strip s of
        [] \<Rightarrow> Inl ValueError
      | c # cs \<Rightarrow>
          (let body = (if c = CHR ''-'' \<or> c = CHR ''+'' then cs else c # cs);
               sign = (if c = CHR ''-'' then - 1 else 1)
           in case body of
                [] \<Rightarrow> Inl ValueError
              | d # _ \<Rightarrow>
                  if is_digit d
                  then (case digits_from 0 body of
                          None \<Rightarrow> Inl ValueError
                        | Some n \<Rightarrow> Inr (sign * int n))
                  else Inl ValueError))"

text \<open>\<open>str.upper\<close> on ASCII letters.\<close>

definition upper_char :: "char \<Rightarrow> char" where
  "upper_char c = (let n = (of_char c :: nat) in if 97 \<le> n \<and> n \<le> 122 then char_of (n - 32) else c)"

definition upper :: "string \<Rightarrow> string" where
  "upper s = map upper_char s"

text \<open>
  A \<open>dict\<close> keeps its keys in insertion order: an association list with distinct keys.
  Storing under a key that is present replaces the value in place; \<open>pop\<close> of an absent
  key raises \<open>KeyError\<close>.
\<close>

type_synonym ('k, 'v) dict = "('k \<times> 'v) list"

definition dict_pop :: "'k \<Rightarrow> ('k, 'v) dict \<Rightarrow> error + ('v \<times> ('k, 'v) dict)" where
  "dict_pop k d = (case map_of d k of None \<Rightarrow> Inl KeyError | Some v \<Rightarrow> Inr (v, AList.delete k d))"

text \<open>
  The dictionary comprehension \<open>{r.id: r.seq.upper() for r in SeqIO.parse(file, 'fasta')}\<close>
  over the records \<open>(id, seq)\<close> that the parser yields for the file.
\<close>

definition records_dict :: "(string \<times> string) list \<Rightarrow> (string, string) dict" where
  "records_dict rs = foldl (\<lambda>d r. AList.update (fst r) (upper (snd r)) d) [] rs"

section \<open>The trimming thread \<open>gbl_page.do_gbl\<close> (gtk_gbl.py)\<close>

text \<open>
  What the thread finds on disk for a gene: the raw alignment file, the records the
  FASTA parser yields for it, and what \<open>subprocess.run(arg % raw_msa, shell=True,
  check=True, ...)\<close> does. The command line ends in \<open>; exit 0\<close>, so the shell returns 0
  whatever Gblocks returns: \<open>CalledProcessError\<close> is never raised, and \<open>Run_error\<close> is
  an \<open>OSError\<close> of starting the shell itself, carried as \<open>str(e)\<close>. In every other
  case the call returns (\<open>Run_ok\<close>), also when Gblocks has failed, and the thread goes
  on to the files Gblocks should have written, the trimmed alignment
  \<open>*_raw_msa.fasta.txt\<close> and the report \<open>*_raw_msa.fasta.txt.txts\<close>; \<open>None\<close> is a file
  that is not there, as after a Gblocks that failed.
\<close>

record gblocks_out =
  trimmed :: "string option"
  report :: "string list option"

datatype run_outcome = Run_error string | Run_ok gblocks_out

record gene_files =
  raw_msa :: string
  raw_records :: "(string \<times> string) list"
  gblocks_run :: run_outcome

text \<open>
  The state of the loop over the genes: the error list, the raw widths seen so far,
  the retained ranges in global coordinates (a Python set of \<open>range\<close> objects; two
  ranges are equal when they hold the same numbers, so a range is the set of its
  numbers), the variable \<open>line_blocks\<close> (unbound before the first report is parsed),
  the trimmed alignment files written, and the genes Gblocks was run for.
\<close>

record gbl_state =
  errors :: "string list"
  msa_lens :: "nat list"
  slices :: "int set set"
  line_blocks :: "string list option"
  msa_files :: "string \<Rightarrow> string option"
  invoked :: "string list"

datatype 'a outcome = Done 'a | Aborted 'a | Crashed error

text \<open>
  \<open>ar = np.array([repo.seqtoint(records[_id]) for _id in shared_ids])\<close> and
  \<open>ar.shape[1]\<close>. \<open>repo.seqtoint\<close> is not part of the sources at hand; it turns a
  sequence into one integer per symbol, so a row is as long as its sequence. An array of
  no rows or of rows of different lengths has one dimension only, and \<open>shape[1]\<close> raises
  \<open>IndexError\<close>.
\<close>

definition raw_width :: "string list \<Rightarrow> error + nat" where
  "raw_width rows =
     (case rows of
        [] \<Rightarrow> Inl IndexError
      | r # rs \<Rightarrow> if list_all (\<lambda>x. length x = length r) rs then Inr (length r)
                 else Inl IndexError)"

fun lookup_all :: "(string, string) dict \<Rightarrow> string list \<Rightarrow> error + string list" where
  "lookup_all d [] = Inr []"
| "lookup_all d (k # ks) =
     (case map_of d k of
        None \<Rightarrow> Inl KeyError
      | Some v \<Rightarrow> (case lookup_all d ks of Inl e \<Rightarrow> Inl e | Inr vs \<Rightarrow> Inr (v # vs)))"

text \<open>The scan of the report for the line after the flank header.\<close>

definition flank_header :: "string \<Rightarrow> bool" where
  "flank_header line =
     (startswith line ''Flank positions of the'' \<and> endswith (strip line) ''selected block(s)'')"

fun scan_report :: "string list \<Rightarrow> string list option" where
  "scan_report [] = None"
| "scan_report (line # rest) =
     (if flank_header line
      then (let lane = (case rest of [] \<Rightarrow> [] | l # _ \<Rightarrow> l)
            in Some (split (butlast (drop 9 (strip lane))) '']  [''))
      else scan_report rest)"

text \<open>
  The variable \<open>line_blocks\<close> after the scan: a report without a flank header leaves
  it as it was, unbound (\<open>None\<close>) or with the blocks of an earlier gene.
\<close>

definition read_blocks :: "string list option \<Rightarrow> string list \<Rightarrow> string list option" where
  "read_blocks old lines = (case scan_report lines of Some b \<Rightarrow> Some b | None \<Rightarrow> old)"

text \<open>
  \<open>[[int(b) + shift for b in block.split('  ')] for block in line_blocks]\<close>, and then
  \<open>{range(r[0] - 1, r[1]) for r in ...}\<close>: the inner list is built for every block
  before the first range is.
\<close>

fun shifted_ints :: "int \<Rightarrow> string list \<Rightarrow> error + int list" where
  "shifted_ints shift [] = Inr []"
| "shifted_ints shift (b # bs) =
     (case py_int b of
        Inl e \<Rightarrow> Inl e
      | Inr n \<Rightarrow> (case shifted_ints shift bs of
                    Inl e \<Rightarrow> Inl e
                  | Inr ns \<Rightarrow> Inr ((n + shift) # ns)))"

fun shifted_blocks :: "int \<Rightarrow> string list \<Rightarrow> error + int list list" where
  "shifted_blocks shift [] = Inr []"
| "shifted_blocks shift (block # blocks) =
     (case shifted_ints shift (split block ''  '') of
        Inl e \<Rightarrow> Inl e
      | Inr r \<Rightarrow> (case shifted_blocks shift blocks of
                    Inl e \<Rightarrow> Inl e
                  | Inr rs \<Rightarrow> Inr (r # rs)))"

fun ranges_of :: "int list list \<Rightarrow> error + int set list" where
  "ranges_of [] = Inr []"
| "ranges_of (r # rs) =
     (case r of
        a # b # _ \<Rightarrow> (case ranges_of rs of Inl e \<Rightarrow> Inl e | Inr ss \<Rightarrow> Inr ({a - 1..<b} # ss))
      | _ \<Rightarrow> Inl IndexError)"

definition block_slices :: "int \<Rightarrow> string list \<Rightarrow> error + int set list" where
  "block_slices shift blocks =
     (case shifted_blocks shift blocks of Inl e \<Rightarrow> Inl e | Inr rs \<Rightarrow> ranges_of rs)"

text \<open>
  One pass of the loop body for a gene. \<open>Aborted\<close> is the early \<open>return\<close> after the
  mismatch, \<open>Done\<close> the end of the pass (also by \<open>continue\<close>), \<open>Crashed\<close> an exception
  nothing in the thread catches.
\<close>

definition mismatch_msg :: "string \<Rightarrow> string" where
  "mismatch_msg gene = ''MSA for '' @ gene @ '' does not match the dataset, please re-build.''"

definition gbl_gene ::
  "string \<Rightarrow> string list \<Rightarrow> (string \<Rightarrow> gene_files) \<Rightarrow> string \<Rightarrow> gbl_state
     \<Rightarrow> gbl_state outcome" where
  "gbl_gene preset shared_ids env gene st =
     (let f = env gene; records = records_dict (raw_records f) in
      if sort (map fst records) \<noteq> shared_ids
      then Aborted (st\<lparr>errors := errors st @ [mismatch_msg gene]\<rparr>)
      else
       (case lookup_all records shared_ids of
          Inl e \<Rightarrow> Crashed e
        | Inr rows \<Rightarrow>
       (case raw_width rows of
          Inl e \<Rightarrow> Crashed e
        | Inr w \<Rightarrow>
          (let st1 = st\<lparr>msa_lens := msa_lens st @ [w]\<rparr> in
           if preset = ''skip''
           then Done (st1\<lparr>msa_files := (msa_files st1)(gene \<mapsto> raw_msa f)\<rparr>)
           else
             (let st2 = st1\<lparr>invoked := invoked st1 @ [gene]\<rparr> in
              (case gblocks_run f of
                 Run_error e \<Rightarrow> Done (st2\<lparr>errors := errors st2 @ [e]\<rparr>)
               | Run_ok out \<Rightarrow>
              (case trimmed out of
                 None \<Rightarrow> Crashed FileNotFoundError
               | Some t \<Rightarrow>
                 (let st3 = st2\<lparr>msa_files := (msa_files st2)(gene \<mapsto> t)\<rparr> in
                  (case report out of
                     None \<Rightarrow> Crashed FileNotFoundError
                   | Some lines \<Rightarrow>
                  (case read_blocks (line_blocks st) lines of
                     None \<Rightarrow> Crashed NameError
                   | Some blocks \<Rightarrow>
                    (let st4 = st3\<lparr>line_blocks := Some blocks\<rparr> in
                     if blocks = ['''']
                     then Done (st4\<lparr>errors := errors st4 @ [gene @ '': no good blocks'']\<rparr>)
                     else
                       (let shift = int (sum_list (butlast (msa_lens st4))) in
                        (case block_slices shift blocks of
                           Inl e \<Rightarrow> Crashed e
                         | Inr rs \<Rightarrow> Done (st4\<lparr>slices := slices st4 \<union> set rs\<rparr>))))))))))))))"

fun gbl_loop ::
  "string \<Rightarrow> string list \<Rightarrow> (string \<Rightarrow> gene_files) \<Rightarrow> string list \<Rightarrow> gbl_state
     \<Rightarrow> gbl_state outcome" where
  "gbl_loop preset shared_ids env [] st = Done st"
| "gbl_loop preset shared_ids env (gene # genes) st =
     (case gbl_gene preset shared_ids env gene st of
        Done st' \<Rightarrow> gbl_loop preset shared_ids env genes st'
      | Aborted st' \<Rightarrow> Aborted st'
      | Crashed e \<Rightarrow> Crashed e)"

text \<open>The state before the loop; \<open>files\<close> are the trimmed alignments of earlier runs.\<close>

definition gbl_init :: "(string \<Rightarrow> string option) \<Rightarrow> gbl_state" where
  "gbl_init files = \<lparr>errors = [], msa_lens = [], slices = {}, line_blocks = None,
                     msa_files = files, invoked = []\<rparr>"

text \<open>The state a finished loop hands on, if the loop finished.\<close>

definition final :: "'a outcome \<Rightarrow> 'a option" where
  "final r = (case r of Done st \<Rightarrow> Some st | _ \<Rightarrow> None)"

text \<open>
  The raw (untrimmed) width the loop records for a gene, and a range moved to the right
  by an offset.
\<close>

definition raw_len :: "(string \<Rightarrow> gene_files) \<Rightarrow> string list \<Rightarrow> string \<Rightarrow> nat" where
  "raw_len env shared_ids gene =
     (case lookup_all (records_dict (raw_records (env gene))) shared_ids of
        Inl _ \<Rightarrow> 0
      | Inr rows \<Rightarrow> (case raw_width rows of Inl _ \<Rightarrow> 0 | Inr w \<Rightarrow> w))"

definition shift_range :: "nat \<Rightarrow> int set \<Rightarrow> int set" where
  "shift_range d r = (\<lambda>x. x + int d) ` r"

text \<open>
  The retained ranges of a gene in its own coordinates, as its report lists them: the
  range \<open>{s - 1..<e}\<close> for every block \<open>[s  e]\<close> of the flank line, and none when nothing
  is trimmed or nothing is kept.
\<close>

definition local_slices :: "string \<Rightarrow> gene_files \<Rightarrow> int set set" where
  "local_slices preset f =
     (if preset = ''skip'' then {}
      else
        (case gblocks_run f of
           Run_error e \<Rightarrow> {}
         | Run_ok out \<Rightarrow>
             (case report out of
                None \<Rightarrow> {}
              | Some lines \<Rightarrow>
                  (case scan_report lines of
                     None \<Rightarrow> {}
                   | Some blocks \<Rightarrow>
                       if blocks = [''''] then {}
                       else (case block_slices 0 blocks of Inl e \<Rightarrow> {} | Inr rs \<Rightarrow> set rs)))))"

text \<open>
  The coordinate mapping in the words of the specification: \<open>toGlobal\<close> shifts the ranges
  of a gene by the offset so far and advances the offset by the raw width of the gene;
  \<open>global_ranges\<close> does so for the genes in order, each given by its local ranges and
  its raw width.
\<close>

definition toGlobal :: "int set set \<Rightarrow> nat \<Rightarrow> nat \<Rightarrow> int set set \<times> nat" where
  "toGlobal ranges offsetSoFar rawWidth = (shift_range offsetSoFar ` ranges, offsetSoFar + rawWidth)"

fun global_ranges :: "(int set set \<times> nat) list \<Rightarrow> nat \<Rightarrow> int set set" where
  "global_ranges [] offsetSoFar = {}"
| "global_ranges ((ranges, rawWidth) # rest) offsetSoFar =
     (let (shifted, newOffset) = toGlobal ranges offsetSoFar rawWidth
      in shifted \<union> global_ranges rest newOffset)"

section \<open>\<open>msa_build.concat_msa\<close> (msa.py)\<close>

text \<open>
  \<open>all_records\<close> maps a gene to the dictionary of its trimmed alignment, sample id to
  sequence; the id of a record is its key, and \<open>+=\<close> keeps the id of the left record
  when both ids agree, so a record is the pair of its id and its sequence.
  \<open>parsed gene\<close> are the records the FASTA parser yields for \<open>gene_msa.fasta\<close>.
\<close>

type_synonym all_recs = "(string, (string, string) dict) dict"

definition read_all :: "(string \<Rightarrow> (string \<times> string) list) \<Rightarrow> string list \<Rightarrow> all_recs" where
  "read_all parsed genes =
     foldl (\<lambda>d gene. AList.update gene (records_dict (parsed gene)) d) [] genes"

text \<open>\<open>random.choice(xs)\<close> with the random draw \<open>r\<close>; an empty list raises \<open>IndexError\<close>.\<close>

definition choice :: "nat \<Rightarrow> 'a list \<Rightarrow> error + 'a" where
  "choice r xs = (if xs = [] then Inl IndexError else Inr (xs ! (r mod length xs)))"

fun msa_len_loop :: "(string \<Rightarrow> nat) \<Rightarrow> all_recs \<Rightarrow> nat \<Rightarrow> error + nat" where
  "msa_len_loop rnd [] msa_len = Inr msa_len"
| "msa_len_loop rnd ((gene, d) # rest) msa_len =
     (case choice (rnd gene) (map snd d) of
        Inl e \<Rightarrow> Inl e
      | Inr r \<Rightarrow> msa_len_loop rnd rest (msa_len + length r))"

text \<open>\<open>all_records[gene].pop(sample_id)\<close>.\<close>

definition pop_record :: "all_recs \<Rightarrow> string \<Rightarrow> string \<Rightarrow> error + (string \<times> all_recs)" where
  "pop_record recs gene sample_id =
     (case map_of recs gene of
        None \<Rightarrow> Inl KeyError
      | Some d \<Rightarrow>
          (case dict_pop sample_id d of
             Inl e \<Rightarrow> Inl e
           | Inr (v, d') \<Rightarrow> Inr (v, AList.update gene d' recs)))"

text \<open>
  The inner loop \<open>for gene in self.genes[1:]\<close> for one sample: the separator is appended
  before the lookup, and a missing sample does not end the loop.
\<close>

record row_state =
  row :: string
  skip :: bool
  recs :: all_recs
  missing :: "(string, string list) dict"

fun append_genes :: "string \<Rightarrow> string \<Rightarrow> string list \<Rightarrow> row_state \<Rightarrow> row_state" where
  "append_genes sep sample_id [] st = st"
| "append_genes sep sample_id (gene # genes) st =
     (let record1 = row st @ sep in
      case pop_record (recs st) gene sample_id of
        Inl e \<Rightarrow>
          append_genes sep sample_id genes
            (st\<lparr>row := record1, skip := True,
                missing := AList.map_entry gene (\<lambda>l. l @ [sample_id]) (missing st)\<rparr>)
      | Inr (v, recs') \<Rightarrow>
          append_genes sep sample_id genes (st\<lparr>row := record1 @ v, recs := recs'\<rparr>))"

text \<open>
  The loop over the samples of the first gene, in the order \<open>order\<close> in which the
  Python set of its keys is iterated, with the file written so far and the counter.
\<close>

record join_state =
  all_records :: all_recs
  missing_genes :: "(string, string list) dict"
  msa :: "(string \<times> string) list"
  shared :: nat

fun sample_loop ::
  "string \<Rightarrow> string \<Rightarrow> string list \<Rightarrow> string list \<Rightarrow> join_state \<Rightarrow> error + join_state" where
  "sample_loop sep gene0 others [] st = Inr st"
| "sample_loop sep gene0 others (sample_id # rest) st =
     (case pop_record (all_records st) gene0 sample_id of
        Inl e \<Rightarrow> Inl e
      | Inr (v, recs0) \<Rightarrow>
          (let r = append_genes sep sample_id others
                     \<lparr>row = v, skip = False, recs = recs0, missing = missing_genes st\<rparr>;
               st1 = st\<lparr>all_records := recs r, missing_genes := missing r\<rparr>
           in sample_loop sep gene0 others rest
                (if skip r then st1
                 else st1\<lparr>msa := msa st1 @ [(sample_id, row r)], shared := shared st1 + 1\<rparr>)))"

text \<open>
  The result of a run that does not exit: the records written to the concatenated
  alignment, the logged shape, and the report of missing samples, a line per gene in
  the order of \<open>missing_genes\<close> with the set of its samples.
\<close>

record concat_result =
  msa_file :: "(string \<times> string) list"
  msa_shape :: "nat \<times> nat"
  missing_report :: "(string \<times> string set) list"

text \<open>
  \<open>[missing_genes[self.genes[0]].extend(all_records[gene].keys()) for gene in
  self.genes[1:]]\<close>: the samples left in the later genes go to the first gene.
\<close>

definition extend_first :: "string \<Rightarrow> string list \<Rightarrow> all_recs \<Rightarrow> (string, string list) dict
    \<Rightarrow> (string, string list) dict" where
  "extend_first gene0 others left m =
     foldl (\<lambda>m gene. AList.map_entry gene0
                        (\<lambda>l. l @ (case map_of left gene of None \<Rightarrow> [] | Some d \<Rightarrow> map fst d)) m)
       m others"

definition concat_msa ::
  "(string \<Rightarrow> (string \<times> string) list) \<Rightarrow> string list \<Rightarrow> string \<Rightarrow> (string \<Rightarrow> nat) \<Rightarrow> string list
     \<Rightarrow> error + concat_result" where
  "concat_msa parsed genes sep rnd order =
     (let all = read_all parsed genes in
      case msa_len_loop rnd all 0 of
        Inl e \<Rightarrow> Inl e
      | Inr msa_len \<Rightarrow>
          (let missing0 = foldl (\<lambda>d gene. AList.update gene [] d) [] genes in
           case genes of
             [] \<Rightarrow> Inl IndexError
           | gene0 # others \<Rightarrow>
               (case sample_loop sep gene0 others order
                       \<lparr>all_records = all, missing_genes = missing0, msa = [], shared = 0\<rparr> of
                  Inl e \<Rightarrow> Inl e
                | Inr st \<Rightarrow>
                    if length genes > 1 \<and> shared st = 0 then Inl (SystemExit 1)
                    else if \<not> length genes > 1 \<and> msa_len = 0 then Inl (SystemExit 1)
                    else
                      (let missing1 = extend_first gene0 others (all_records st)
                                        (missing_genes st)
                       in Inr \<lparr>msa_file = msa st, msa_shape = (msa_len, shared st),
                                missing_report = map (\<lambda>(gene, samples). (gene, set samples))
                                                   missing1\<rparr>))))"

section \<open>The flank line of a Gblocks report\<close>

text \<open>
  The line Gblocks prints after the flank header for the selected blocks
  \<open>(s\<^sub>1, e\<^sub>1), (s\<^sub>2, e\<^sub>2), \<dots>\<close> (first and last column of a block, counted from one):
  \<open>Flanks: [s\<^sub>1  e\<^sub>1]  [s\<^sub>2  e\<^sub>2]  \<close>, the numbers in decimal.
\<close>

fun show_nat :: "nat \<Rightarrow> string" where
  "show_nat n =
     (if n < 10 then [char_of (48 + n)] else show_nat (n div 10) @ [char_of (48 + n mod 10)])"

declare show_nat.simps [simp del]

definition block_text :: "nat \<times> nat \<Rightarrow> string" where
  "block_text p = show_nat (fst p) @ ''  '' @ show_nat (snd p)"

fun join_blocks :: "string list \<Rightarrow> string" where
  "join_blocks [] = []"
| "join_blocks [b] = b"
| "join_blocks (b # c # bs) = b @ '']  ['' @ join_blocks (c # bs)"

definition flanks_line :: "(nat \<times> nat) list \<Rightarrow> string" where
  "flanks_line pairs = ''Flanks: ['' @ join_blocks (map block_text pairs) @ '']  '' @ [CHR 0x0A]"

section \<open>Notions used to state the properties of \<open>concat_msa\<close>\<close>

text \<open>The sample ids a gene holds in \<open>all_records\<close>, and the ids of a parsed alignment.\<close>

definition ids_of :: "all_recs \<Rightarrow> string \<Rightarrow> string set" where
  "ids_of rs gene = (case map_of rs gene of None \<Rightarrow> {} | Some d \<Rightarrow> fst ` set d)"

definition sample_ids :: "(string \<times> string) list \<Rightarrow> string set" where
  "sample_ids records = fst ` set records"

text \<open>Every sequence a gene holds has the width \<open>w gene\<close>.\<close>

definition rect :: "(string \<Rightarrow> nat) \<Rightarrow> all_recs \<Rightarrow> bool" where
  "rect w rs = (\<forall>gene d. map_of rs gene = Some d \<longrightarrow> (\<forall>r \<in> set d. length (snd r) = w gene))"

section \<open>Concrete inputs\<close>

text \<open>
  The trimming page after a manual edit that left flank 1 below conserved 2, and the
  click that starts trimming.
\<close>

definition page_flank_below :: iface where
  "page_flank_below = \<lparr>gbl_preset = ''balanced'',
     conserved = \<lparr>val = 2, lower = 2, upper = 3\<rparr>,
     flank = \<lparr>val = 1, lower = 1, upper = 3\<rparr>,
     good_block = \<lparr>val = 5, lower = 2, upper = 100\<rparr>,
     bad_block = \<lparr>val = 8, lower = 0, upper = 100\<rparr>,
     gaps = ''half'', params = None\<rparr>"

definition click :: start_env where
  "click = \<lparr>has_genes = True, thread_alive = False, shortcut = False\<rparr>"

text \<open>
  A data set of two samples. Gblocks keeps two blocks of \<open>ITS\<close> (raw width 10), one of
  \<open>EF1\<close> (raw width 8) and the columns 1 to 50 and 80 to 120 of \<open>COI\<close> (raw width
  120), fails on \<open>OPA\<close> and writes neither file, and keeps nothing of \<open>RPB\<close>; the raw
  alignment of every other gene holds a sample that is not shared.
\<close>

definition newline :: string where
  "newline = [CHR 0x0A]"

definition ex_ids :: "string list" where
  "ex_ids = [''s1'', ''s2'']"

definition flank_report :: "string \<Rightarrow> string \<Rightarrow> string list" where
  "flank_report n flanks =
     [''Gblocks 0.91b Results'' @ newline, newline,
      ''Flank positions of the '' @ n @ '' selected block(s)'' @ newline,
      ''Flanks: '' @ flanks @ newline, newline]"

definition ex_env :: "string \<Rightarrow> gene_files" where
  "ex_env gene =
     (if gene = ''ITS'' then
        \<lparr>raw_msa = ''>s1'' @ newline @ ''acgtacgtac'' @ newline @ ''>s2'' @ newline
                     @ ''acgtac-tac'' @ newline,
         raw_records = [(''s1'', ''acgtacgtac''), (''s2'', ''acgtac-tac'')],
         gblocks_run = Run_ok \<lparr>trimmed = Some (''>s1'' @ newline @ ''ACGTGTAC'' @ newline
                                              @ ''>s2'' @ newline @ ''ACGT-TAC'' @ newline),
                                report = Some (flank_report ''2'' ''[1  4]  [7  10]  '')\<rparr>\<rparr>
      else if gene = ''EF1'' then
        \<lparr>raw_msa = ''>s2'' @ newline @ ''ttgacc-a'' @ newline @ ''>s1'' @ newline
                     @ ''ttgaccga'' @ newline,
         raw_records = [(''s2'', ''ttgacc-a''), (''s1'', ''ttgaccga'')],
         gblocks_run = Run_ok \<lparr>trimmed = Some (''>s2'' @ newline @ ''GACC-A'' @ newline
                                              @ ''>s1'' @ newline @ ''GACCGA'' @ newline),
                                report = Some (flank_report ''1'' ''[3  8]  '')\<rparr>\<rparr>
      else if gene = ''OPA'' then
        \<lparr>raw_msa = ''>s1'' @ newline @ ''ggatcc'' @ newline @ ''>s2'' @ newline
                     @ ''ggatcc'' @ newline,
         raw_records = [(''s1'', ''ggatcc''), (''s2'', ''ggatcc'')],
         gblocks_run = Run_ok \<lparr>trimmed = None, report = None\<rparr>\<rparr>
      else if gene = ''COI'' then
        \<lparr>raw_msa = ''>s1'' @ newline @ replicate 120 CHR ''a'' @ newline @ ''>s2'' @ newline
                     @ replicate 120 CHR ''c'' @ newline,
         raw_records = [(''s1'', replicate 120 CHR ''a''), (''s2'', replicate 120 CHR ''c'')],
         gblocks_run = Run_ok \<lparr>trimmed = Some (''>s1'' @ newline @ replicate 91 CHR ''A''
                                              @ newline @ ''>s2'' @ newline
                                              @ replicate 91 CHR ''C'' @ newline),
                                report = Some (flank_report ''2'' ''[1  50]  [80  120]  '')\<rparr>\<rparr>
      else if gene = ''RPB'' then
        \<lparr>raw_msa = ''>s1'' @ newline @ ''a-c-g'' @ newline @ ''>s2'' @ newline
                     @ ''-t-c-'' @ newline,
         raw_records = [(''s1'', ''a-c-g''), (''s2'', ''-t-c-'')],
         gblocks_run = Run_ok \<lparr>trimmed = Some (''>s1'' @ newline @ ''>s2'' @ newline),
                                report = Some (flank_report ''0'' [])\<rparr>\<rparr>
      else
        \<lparr>raw_msa = ''>s1'' @ newline @ ''acgt'' @ newline @ ''>s3'' @ newline
                     @ ''acgt'' @ newline,
         raw_records = [(''s1'', ''acgt''), (''s3'', ''acgt'')],
         gblocks_run = Run_ok \<lparr>trimmed = Some (''>s1'' @ newline @ ''ACGT'' @ newline
                                              @ ''>s3'' @ newline @ ''ACGT'' @ newline),
                                report = Some (flank_report ''1'' ''[1  4]  '')\<rparr>\<rparr>)"

text \<open>
  Two trimmed alignments: gene \<open>A\<close> of width 4 with the samples x, y, z and gene \<open>B\<close> of
  width 2 with the samples y, z, w; and a single gene whose trimmed alignment has no
  column left.
\<close>

definition ex_parsed :: "string \<Rightarrow> (string \<times> string) list" where
  "ex_parsed gene =
     (if gene = ''A'' then [(''x'', ''acgt''), (''y'', ''acga''), (''z'', ''acgg'')]
      else [(''y'', ''tt''), (''z'', ''tc''), (''w'', ''ta'')])"

definition ex_width :: "string \<Rightarrow> nat" where
  "ex_width gene = (if gene = ''A'' then 4 else 2)"

definition ex_empty :: "string \<Rightarrow> (string \<times> string) list" where
  "ex_empty gene = [(''x'', []), (''y'', [])]"

section \<open>Properties of the trimming presets\<close>

lemma int_frac_nonneg: "0 \<le> n \<Longrightarrow> int_frac n p q = (n * p) div q"
  by (cases "n = 0") (simp_all add: int_frac_def)

text \<open>
  Both paths compute the same conserved minimum, flank minimum and gap policy for the
  four trimming modes, and \<open>re_preset\<close> computes the block lengths 5, 5, 10, 10.
\<close>

lemma re_preset_values_table:
  "re_preset_values ''relaxed'' n = Inr (Some \<lparr>pv_conserved = n div 2 + 1,
      pv_flank = n div 2 + 1, pv_gaps = ''half'', pv_good_block = 5, pv_bad_block = 8\<rparr>)"
  "re_preset_values ''balanced'' n = Inr (Some \<lparr>pv_conserved = n div 2 + 1,
      pv_flank = min (n div 4 * 3 + 1) n, pv_gaps = ''half'', pv_good_block = 5,
      pv_bad_block = 8\<rparr>)"
  "re_preset_values ''default'' n = Inr (Some \<lparr>pv_conserved = n div 2 + 1,
      pv_flank = min (int_frac n 85 100 + 1) n, pv_gaps = ''none'', pv_good_block = 10,
      pv_bad_block = 8\<rparr>)"
  "re_preset_values ''strict'' n = Inr (Some \<lparr>pv_conserved = int_frac n 9 10,
      pv_flank = int_frac n 9 10, pv_gaps = ''none'', pv_good_block = 10,
      pv_bad_block = 8\<rparr>)"
  by (simp_all add: re_preset_values_def Let_def)

lemma trim_msa_table:
  "trim_msa ''relaxed'' n = Run_gblocks \<lparr>b2 = n div 2 + 1, b1 = n div 2 + 1, b4 = 5,
      b5 = ''h''\<rparr>"
  "trim_msa ''balanced'' n = Run_gblocks \<lparr>b2 = min (n div 4 * 3 + 1) n, b1 = n div 2 + 1,
      b4 = 5, b5 = ''h''\<rparr>"
  "trim_msa ''default'' n = Run_gblocks \<lparr>b2 = min (int_frac n 85 100 + 1) n,
      b1 = n div 2 + 1, b4 = 10, b5 = ''n''\<rparr>"
  "trim_msa ''strict'' n = Run_gblocks \<lparr>b2 = int_frac n 9 10, b1 = int_frac n 9 10,
      b4 = 5, b5 = ''n''\<rparr>"
  by (simp_all add: trim_msa_def Let_def)

text \<open>
  C3. The parameters handed to the trimmer follow the table of the specification, with
  good-block minimum 10 for the strict mode. The strict branch of \<open>re_preset\<close> sets 10;
  \<open>trim_msa\<close> leaves the good-block minimum of the strict mode at its initial 5: for ten
  sequences it calls Gblocks with \<open>-b2=9 -b1=9 -b4=5 -b5=n\<close>.
\<close>

theorem trim_msa_strict_good_block:
  "trim_msa ''strict'' 10 = Run_gblocks \<lparr>b2 = 9, b1 = 9, b4 = 5, b5 = ''n''\<rparr> \<and>
   re_preset_values ''strict'' 10 = Inr (Some \<lparr>pv_conserved = 9, pv_flank = 9,
      pv_gaps = ''none'', pv_good_block = 10, pv_bad_block = 8\<rparr>)"
  by (simp add: trim_msa_def re_preset_values_def int_frac_def)

text \<open>
  The order conserved \<open>\<le>\<close> flank \<open>\<le>\<close> n: for the command of \<open>trim_msa\<close> it holds in every
  mode and at every count but the balanced mode at 2 and 3; for what \<open>re_preset\<close> stores
  in the adjustments it holds throughout, since \<open>configure\<close> raises a flank below the
  lower bound \<open>n // 2 + 1\<close> to that bound.
\<close>

lemma half_le: "1 \<le> (n::int) \<Longrightarrow> n div 2 + 1 \<le> n"
  by linarith

lemma balanced_flank_ge:
  assumes "1 \<le> (n::int)" "n \<noteq> 2" "n \<noteq> 3"
  shows "n div 2 \<le> n div 4 * 3"
proof -
  have d2: "2 * (n div 2) \<le> n" and d4: "n \<le> 4 * (n div 4) + 3"
    by simp_all
  consider "n = 1" | "n = 4" | "n = 5" | "n = 6" | "n = 7" | "n = 8" | "9 \<le> n"
    using assms by linarith
  then show ?thesis
  proof cases
    case 7
    with d2 d4 show ?thesis by linarith
  qed simp_all
qed

lemma default_flank_ge: "1 \<le> (n::int) \<Longrightarrow> n div 2 \<le> n * 85 div 100"
  by linarith

lemma strict_le: "1 \<le> (n::int) \<Longrightarrow> n * 9 div 10 \<le> n"
  by linarith

lemma trim_msa_other:
  "mode \<noteq> ''skip'' \<Longrightarrow> mode \<noteq> ''relaxed'' \<Longrightarrow> mode \<noteq> ''balanced'' \<Longrightarrow>
   mode \<noteq> ''default'' \<Longrightarrow>
   trim_msa mode n = Run_gblocks \<lparr>b2 = int_frac n 9 10, b1 = int_frac n 9 10, b4 = 5,
      b5 = ''n''\<rparr>"
  by (simp add: trim_msa_def Let_def)

lemma trim_msa_ordered:
  assumes "1 \<le> n" and "mode \<noteq> ''skip''" and "mode = ''balanced'' \<longrightarrow> n \<notin> {2, 3}"
    and "trim_msa mode n = Run_gblocks a"
  shows "b1 a \<le> b2 a \<and> b2 a \<le> n"
proof -
  have f9: "int_frac n 9 10 = (n * 9) div 10" and f85: "int_frac n 85 100 = (n * 85) div 100"
    using assms(1) by (simp_all add: int_frac_nonneg)
  note h = half_le[OF assms(1)] default_flank_ge[OF assms(1)] strict_le[OF assms(1)]
  consider "mode = ''relaxed''" | "mode = ''balanced''" | "mode = ''default''"
    | "mode \<noteq> ''skip''" "mode \<noteq> ''relaxed''" "mode \<noteq> ''balanced''" "mode \<noteq> ''default''"
    using assms(2) by blast
  then show ?thesis
  proof cases
    case 1
    with assms(4) h show ?thesis by (auto simp: trim_msa_table)
  next
    case 2
    with assms(3) have "n \<noteq> 2" "n \<noteq> 3" by simp_all
    from balanced_flank_ge[OF assms(1) this] 2 assms(4) h show ?thesis
      by (auto simp: trim_msa_table)
  next
    case 3
    with assms(4) h f85 show ?thesis by (auto simp: trim_msa_table)
  next
    case 4
    from trim_msa_other[OF 4, of n] assms(4) h f9 show ?thesis by auto
  qed
qed

lemma re_preset_ordered:
  assumes "1 \<le> n" and "mode \<noteq> ''skip''" and "re_preset mode n_sites n ifc = Inr ifc'"
  shows "val (conserved ifc') \<le> val (flank ifc') \<and> val (flank ifc') \<le> real_of_int n"
proof -
  from assms(2,3) obtain pv where pv: "re_preset_values mode n = Inr (Some pv)"
    and ifc': "conserved ifc' = configure (real_of_int (pv_conserved pv))
                                   (real_of_int (n div 2 + 1)) (real_of_int n)"
      "flank ifc' = configure (real_of_int (pv_flank pv))
                               (real_of_int (n div 2 + 1)) (real_of_int n)"
    by (auto simp: re_preset_def re_preset_values_def Let_def
             split: sum.splits option.splits if_splits)
  have lo: "real_of_int (n div 2 + 1) \<le> real_of_int n"
    using half_le[OF assms(1)] by (simp only: of_int_le_iff)
  from pv have "pv_conserved pv = n div 2 + 1 \<or> pv_conserved pv = pv_flank pv"
    by (auto simp: re_preset_values_def Let_def split: if_splits)
  then show ?thesis
  proof
    assume "pv_conserved pv = n div 2 + 1"
    then show ?thesis using lo by (simp add: ifc' configure_def)
  next
    assume "pv_conserved pv = pv_flank pv"
    then show ?thesis using lo by (simp add: ifc' configure_def)
  qed
qed

text \<open>
  C4, as the specification states it, asks for conserved \<open>\<le>\<close> flank \<open>\<le>\<close> n of the computed
  parameters at every count \<open>n \<ge> 1\<close>. The balanced formula \<open>min(n // 4 * 3 + 1, n)\<close> gives
  flank 1 below conserved 2 at two sequences: so the command \<open>trim_msa\<close> builds, and so
  the local variables of \<open>re_preset\<close> before they are stored.
\<close>

theorem balanced_formula_counterexample:
  "trim_msa ''balanced'' 2 = Run_gblocks \<lparr>b2 = 1, b1 = 2, b4 = 5, b5 = ''h''\<rparr> \<and>
   \<not> b1 \<lparr>b2 = 1, b1 = 2, b4 = 5, b5 = ''h''\<rparr> \<le> b2 \<lparr>b2 = 1, b1 = 2, b4 = 5, b5 = ''h''\<rparr> \<and>
   re_preset_values ''balanced'' 2 = Inr (Some \<lparr>pv_conserved = 2, pv_flank = 1,
      pv_gaps = ''half'', pv_good_block = 5, pv_bad_block = 8\<rparr>)"
  by (simp add: trim_msa_def re_preset_values_def)

text \<open>
  C4, amended. For every mode but skip and every count \<open>n \<ge> 1\<close>, the parameters
  \<open>re_preset\<close> stores on the trimming page satisfy conserved \<open>\<le>\<close> flank \<open>\<le>\<close> n; the
  parameters of the command \<open>trim_msa\<close> builds satisfy it in every mode and at every
  count except the balanced mode at 2 and 3 sequences.
\<close>

theorem preset_parameters_ordered:
  assumes "1 \<le> n" and "mode \<noteq> ''skip''"
  shows "(re_preset mode n_sites n ifc = Inr ifc' \<longrightarrow>
            val (conserved ifc') \<le> val (flank ifc') \<and> val (flank ifc') \<le> real_of_int n) \<and>
         ((mode = ''balanced'' \<longrightarrow> n \<notin> {2, 3}) \<and> trim_msa mode n = Run_gblocks a \<longrightarrow>
            b1 a \<le> b2 a \<and> b2 a \<le> n)"
  using re_preset_ordered[OF assms, of n_sites ifc ifc'] trim_msa_ordered[OF assms, of a]
  by blast

theorem preset_parameters_ordered_witness:
  "re_preset ''balanced'' 100 2 page_flank_below =
     Inr (page_flank_below\<lparr>conserved := \<lparr>val = 2, lower = 2, upper = 2\<rparr>,
            flank := \<lparr>val = 2, lower = 2, upper = 2\<rparr>,
            good_block := \<lparr>val = 5, lower = 2, upper = 100\<rparr>,
            bad_block := \<lparr>val = 8, lower = 0, upper = 100\<rparr>, gaps := ''half''\<rparr>) \<and>
   val \<lparr>val = 2, lower = 2, upper = 2\<rparr> \<le> val \<lparr>val = 2, lower = 2, upper = 2 :: real\<rparr> \<and>
   trim_msa ''strict'' 10 = Run_gblocks \<lparr>b2 = 9, b1 = 9, b4 = 5, b5 = ''n''\<rparr> \<and>
   b1 \<lparr>b2 = 9, b1 = 9, b4 = 5, b5 = ''n''\<rparr> \<le> b2 \<lparr>b2 = 9, b1 = 9, b4 = 5, b5 = ''n''\<rparr> \<and>
   b2 \<lparr>b2 = 9, b1 = 9, b4 = 5, b5 = ''n''\<rparr> \<le> 10"
proof -
  let ?p = "page_flank_below\<lparr>conserved := \<lparr>val = 2, lower = 2, upper = 2\<rparr>,
            flank := \<lparr>val = 2, lower = 2, upper = 2\<rparr>,
            good_block := \<lparr>val = 5, lower = 2, upper = 100\<rparr>,
            bad_block := \<lparr>val = 8, lower = 0, upper = 100\<rparr>, gaps := ''half''\<rparr>"
  have r: "re_preset ''balanced'' 100 2 page_flank_below = Inr ?p"
    by (simp add: re_preset_def re_preset_values_def configure_def)
  have t: "trim_msa ''strict'' 10 = Run_gblocks \<lparr>b2 = 9, b1 = 9, b4 = 5, b5 = ''n''\<rparr>"
    by (simp add: trim_msa_def int_frac_def)
  have n: "(1::int) \<le> 2" "''balanced'' \<noteq> ''skip''" "(1::int) \<le> 10" "''strict'' \<noteq> ''skip''"
    by simp_all
  from preset_parameters_ordered [OF n(1,2), of 100 page_flank_below ?p] r
  have a: "val (conserved ?p) \<le> val (flank ?p)" by blast
  from preset_parameters_ordered [OF n(3,4), of _ _ _ "\<lparr>b2 = 9, b1 = 9, b4 = 5, b5 = ''n''\<rparr>"] t
  have b: "b1 \<lparr>b2 = 9, b1 = 9, b4 = 5, b5 = ''n''\<rparr> \<le> b2 \<lparr>b2 = 9, b1 = 9, b4 = 5, b5 = ''n''\<rparr> \<and>
   b2 \<lparr>b2 = 9, b1 = 9, b4 = 5, b5 = ''n''\<rparr> \<le> 10"
    by simp
  from a have a': "val \<lparr>val = 2, lower = 2, upper = 2\<rparr> \<le> val \<lparr>val = 2, lower = 2, upper = 2 :: real\<rparr>"
    by simp
  from r a' t b show ?thesis by (intro conjI) simp_all
qed

section \<open>The flank failsafe of the trimming page\<close>

lemma fmt_d_mono:
  assumes "x \<le> y"
  shows "fmt_d x \<le> fmt_d y"
proof (cases "0 \<le> x")
  case True
  with assms show ?thesis by (simp add: fmt_d_def floor_mono)
next
  case nx: False
  show ?thesis
  proof (cases "0 \<le> y")
    case True
    have "\<lceil>x\<rceil> \<le> 0" using nx by simp
    moreover have "0 \<le> \<lfloor>y\<rfloor>" using True by simp
    ultimately have "\<lceil>x\<rceil> \<le> \<lfloor>y\<rfloor>" by (rule order_trans)
    moreover have "fmt_d x = \<lceil>x\<rceil>" "fmt_d y = \<lfloor>y\<rfloor>"
      using nx True by (simp_all add: fmt_d_def)
    ultimately show ?thesis by simp
  next
    case False
    with nx assms show ?thesis by (simp add: fmt_d_def ceiling_mono)
  qed
qed

lemma start_gbl_params_ordered:
  "start_gbl env ifc = Started ifc' \<Longrightarrow> gbl_preset ifc \<noteq> ''skip'' \<Longrightarrow>
   \<exists>ps. params ifc' = Some ps \<and> p_cons ps \<le> p_flank ps \<and> gbl_preset ifc' = gbl_preset ifc"
  by (auto simp: start_gbl_def Let_def split: if_splits list.splits)

lemma start_gbl_skip:
  "start_gbl env ifc = Started ifc' \<Longrightarrow> gbl_preset ifc = ''skip'' \<Longrightarrow> ifc' = ifc"
  by (auto simp: start_gbl_def Let_def split: if_splits list.splits)

text \<open>
  C10. Every Gblocks command launched from the trimming page has \<open>-b2\<close> (flank) at least
  \<open>-b1\<close> (conserved), whatever the adjustments hold when \<open>start_gbl\<close> runs. After an edit
  of the conserved entry the flank adjustment is at least the conserved value, and equal
  to it when it was below; an edit of the flank entry changes nothing.
\<close>

theorem gbl_command_flank_ge_conserved:
  "(launched_command env ifc = Some c \<longrightarrow> c_b1 c \<le> c_b2 c) \<and>
   val (conserved ifc) \<le> val (flank (edit Conserved_entry ifc)) \<and>
   (val (flank ifc) < val (conserved ifc) \<longrightarrow>
      val (flank (edit Conserved_entry ifc)) = val (conserved ifc)) \<and>
   edit Flank_entry ifc = ifc"
proof (intro conjI impI)
  assume a: "launched_command env ifc = Some c"
  then obtain ifc' where s: "start_gbl env ifc = Started ifc'"
    by (auto simp: launched_command_def split: start_result.splits)
  with a have ns: "gbl_preset ifc' \<noteq> ''skip''"
    and c: "map_option base_call (params ifc') = Some c"
    by (auto simp: launched_command_def split: if_splits)
  have "gbl_preset ifc \<noteq> ''skip''"
    using s ns start_gbl_skip by blast
  then obtain ps where "params ifc' = Some ps" "p_cons ps \<le> p_flank ps"
    using start_gbl_params_ordered[OF s] by blast
  with c show "c_b1 c \<le> c_b2 c"
    by (auto simp: base_call_def intro: fmt_d_mono)
next
  show "val (conserved ifc) \<le> val (flank (edit Conserved_entry ifc))"
    by (simp add: edit_def configure_def Let_def)
next
  assume "val (flank ifc) < val (conserved ifc)"
  then show "val (flank (edit Conserved_entry ifc)) = val (conserved ifc)"
    by (simp add: edit_def configure_def Let_def max_def min_def)
next
  show "edit Flank_entry ifc = ifc" by (simp add: edit_def)
qed

theorem gbl_command_flank_ge_conserved_witness:
  "launched_command click page_flank_below =
     Some \<lparr>c_b1 = 2, c_b2 = 2, c_b3 = 8, c_b4 = 5, c_b5 = CHR ''h''\<rparr> \<and>
   c_b1 \<lparr>c_b1 = 2, c_b2 = 2, c_b3 = 8, c_b4 = 5, c_b5 = CHR ''h''\<rparr>
     \<le> c_b2 \<lparr>c_b1 = 2, c_b2 = 2, c_b3 = 8, c_b4 = 5, c_b5 = CHR ''h''\<rparr> \<and>
   val (flank page_flank_below) < val (conserved page_flank_below) \<and>
   val (flank (edit Conserved_entry page_flank_below)) = val (conserved page_flank_below)"
proof -
  have l: "launched_command click page_flank_below =
     Some \<lparr>c_b1 = 2, c_b2 = 2, c_b3 = 8, c_b4 = 5, c_b5 = CHR ''h''\<rparr>"
    by (simp add: launched_command_def start_gbl_def page_flank_below_def click_def
        base_call_def fmt_d_def)
  have lt: "val (flank page_flank_below) < val (conserved page_flank_below)"
    by (simp add: page_flank_below_def)
  from gbl_command_flank_ge_conserved [of click page_flank_below
      "\<lparr>c_b1 = 2, c_b2 = 2, c_b3 = 8, c_b4 = 5, c_b5 = CHR ''h''\<rparr>"] l lt
  show ?thesis by blast
qed

section \<open>The trimming thread: coordinates of the retained ranges\<close>

lemma gbl_loop_append:
  "gbl_loop p ids env (as @ bs) st =
     (case gbl_loop p ids env as st of
        Done st' \<Rightarrow> gbl_loop p ids env bs st'
      | Aborted st' \<Rightarrow> Aborted st'
      | Crashed e \<Rightarrow> Crashed e)"
  by (induction as arbitrary: st) (auto split: outcome.splits)

lemma shift_range_atLeastLessThan: "shift_range d {a..<b} = {a + int d..<b + int d}"
  unfolding shift_range_def by (simp add: image_add_atLeastLessThan' add.commute)

lemma shifted_ints_add:
  "shifted_ints s bs = Inr ns \<Longrightarrow> shifted_ints (s + d) bs = Inr (map (\<lambda>x. x + d) ns)"
  by (induction bs arbitrary: ns) (auto split: sum.splits)

lemma shifted_blocks_add:
  "shifted_blocks s bs = Inr rs \<Longrightarrow> shifted_blocks (s + d) bs = Inr (map (map (\<lambda>x. x + d)) rs)"
  by (induction bs arbitrary: rs) (auto split: sum.splits simp: shifted_ints_add)

lemma ranges_of_add:
  "ranges_of rs = Inr ss \<Longrightarrow>
   ranges_of (map (map (\<lambda>x. x + int d)) rs) = Inr (map (shift_range d) ss)"
  by (induction rs arbitrary: ss)
     (auto split: sum.splits list.splits simp: shift_range_atLeastLessThan)

lemma block_slices_add:
  "block_slices s bs = Inr ss \<Longrightarrow> block_slices (s + int d) bs = Inr (map (shift_range d) ss)"
proof -
  assume a: "block_slices s bs = Inr ss"
  then obtain rs where rs: "shifted_blocks s bs = Inr rs" and ss: "ranges_of rs = Inr ss"
    by (auto simp: block_slices_def split: sum.splits)
  show ?thesis
    using shifted_blocks_add[OF rs, of "int d"] ranges_of_add[OF ss, of d]
    by (simp add: block_slices_def)
qed


lemma sum_list_butlast_snoc: "sum_list (butlast (xs @ [w])) = sum_list xs"
  by simp

lemma gbl_gene_shift:
  assumes run: "gbl_gene p ids env g s0 = Done s0'"
    and lb: "line_blocks s0 = None \<or> line_blocks s = line_blocks s0"
    and len: "sum_list (msa_lens s) = sum_list (msa_lens s0) + d"
    and sl: "slices s = S \<union> shift_range d ` slices s0"
  shows "\<exists>s'. gbl_gene p ids env g s = Done s' \<and>
           (line_blocks s0' = None \<or> line_blocks s' = line_blocks s0') \<and>
           sum_list (msa_lens s') = sum_list (msa_lens s0') + d \<and>
           msa_lens s0' = msa_lens s0 @ [raw_len env ids g] \<and>
           msa_lens s' = msa_lens s @ [raw_len env ids g] \<and>
           slices s' = S \<union> shift_range d ` slices s0'"
proof -
  from run have ok: "sort (map fst (records_dict (raw_records (env g)))) = ids"
    by (auto simp: gbl_gene_def Let_def split: if_splits)
  from run obtain rows where rows: "lookup_all (records_dict (raw_records (env g))) ids = Inr rows"
    by (auto simp: gbl_gene_def Let_def split: if_splits sum.splits)
  from run rows obtain w where w: "raw_width rows = Inr w"
    by (auto simp: gbl_gene_def Let_def split: if_splits sum.splits)
  have rl: "raw_len env ids g = w" by (simp add: raw_len_def rows w)
  show ?thesis
  proof (cases "p = ''skip''")
    case True
    with run ok rows w len sl lb rl show ?thesis
      by (auto simp: gbl_gene_def Let_def)
  next
    case ns: False
    show ?thesis
    proof (cases "gblocks_run (env g)")
      case (Run_error e)
      with run ok rows w len sl lb rl ns show ?thesis
        by (auto simp: gbl_gene_def Let_def)
    next
      case (Run_ok out)
      from run ok rows w ns Run_ok obtain t lines where t: "trimmed out = Some t"
        and lines: "report out = Some lines"
        by (auto simp: gbl_gene_def Let_def split: option.splits)
      define lb0 where "lb0 = read_blocks (line_blocks s0) lines"
      define lb1 where "lb1 = read_blocks (line_blocks s) lines"
      from run ok rows w ns Run_ok t lines obtain blocks where b0: "lb0 = Some blocks"
        by (auto simp: gbl_gene_def Let_def lb0_def split: option.splits)
      have b1: "lb1 = Some blocks"
        using b0 lb by (auto simp: lb0_def lb1_def read_blocks_def split: option.splits)
      show ?thesis
      proof (cases "blocks = [[]]")
        case True
        with run ok rows w len sl rl ns Run_ok t lines b0 b1 show ?thesis
          by (auto simp: gbl_gene_def Let_def lb0_def lb1_def)
      next
        case nb: False
        from run ok rows w ns Run_ok t lines b0 nb obtain rs where
          rs: "block_slices (int (sum_list (msa_lens s0))) blocks = Inr rs"
          and s0': "s0' = s0\<lparr>msa_lens := msa_lens s0 @ [w], invoked := invoked s0 @ [g],
                 msa_files := (msa_files s0)(g \<mapsto> t), line_blocks := Some blocks,
                 slices := slices s0 \<union> set rs\<rparr>"
          by (auto simp: gbl_gene_def Let_def lb0_def split: sum.splits)
        from block_slices_add[OF rs, of d] len
        have rs': "block_slices (int (sum_list (msa_lens s))) blocks = Inr (map (shift_range d) rs)"
          by (simp add: add.commute)
        have "gbl_gene p ids env g s = Done (s\<lparr>msa_lens := msa_lens s @ [w], invoked := invoked s @ [g],
                 msa_files := (msa_files s)(g \<mapsto> t), line_blocks := Some blocks,
                 slices := slices s \<union> set (map (shift_range d) rs)\<rparr>)"
          using ok rows w ns Run_ok t lines b1 nb rs'
          by (simp add: gbl_gene_def Let_def lb1_def)
        with s0' len sl rl show ?thesis
          by (auto simp: image_Un)
      qed
    qed
  qed
qed

lemma gbl_loop_shift:
  assumes "gbl_loop p ids env gs s0 = Done r0"
    and "line_blocks s0 = None \<or> line_blocks s = line_blocks s0"
    and "sum_list (msa_lens s) = sum_list (msa_lens s0) + d"
    and "slices s = S \<union> shift_range d ` slices s0"
  shows "\<exists>r. gbl_loop p ids env gs s = Done r \<and>
           msa_lens r0 = msa_lens s0 @ map (raw_len env ids) gs \<and>
           msa_lens r = msa_lens s @ map (raw_len env ids) gs \<and>
           slices r = S \<union> shift_range d ` slices r0"
  using assms
proof (induction gs arbitrary: s0 s)
  case Nil
  then show ?case by simp
next
  case (Cons g gs)
  from Cons.prems(1) obtain s0' where g0: "gbl_gene p ids env g s0 = Done s0'"
    and l0: "gbl_loop p ids env gs s0' = Done r0"
    by (auto split: outcome.splits)
  from gbl_gene_shift[OF g0 Cons.prems(2,3,4)] obtain s' where
    g1: "gbl_gene p ids env g s = Done s'"
    and r: "line_blocks s0' = None \<or> line_blocks s' = line_blocks s0'"
      "sum_list (msa_lens s') = sum_list (msa_lens s0') + d"
      "slices s' = S \<union> shift_range d ` slices s0'"
    and m: "msa_lens s0' = msa_lens s0 @ [raw_len env ids g]"
      "msa_lens s' = msa_lens s @ [raw_len env ids g]"
    by blast
  from Cons.IH[OF l0 r] g1 m show ?case by auto
qed

lemma gbl_loop_additive:
  assumes A: "gbl_loop p ids env as (gbl_init f) = Done ra"
    and B: "gbl_loop p ids env bs (gbl_init f') = Done rb"
  shows "\<exists>r. gbl_loop p ids env (as @ bs) (gbl_init f) = Done r \<and>
           msa_lens r = map (raw_len env ids) (as @ bs) \<and>
           slices r = slices ra \<union>
             shift_range (sum_list (map (raw_len env ids) as)) ` slices rb"
proof -
  have i: "line_blocks (gbl_init f') = None" "msa_lens (gbl_init f') = []"
    "slices (gbl_init f') = {}" "msa_lens (gbl_init f) = []"
    by (simp_all add: gbl_init_def)
  have "line_blocks (gbl_init f) = None \<or> line_blocks (gbl_init f) = line_blocks (gbl_init f)"
    by simp
  have la: "msa_lens ra = map (raw_len env ids) as"
    using gbl_loop_shift[OF A, of "gbl_init f" 0 "{}"] i by (auto simp: shift_range_def)
  have "\<exists>r. gbl_loop p ids env bs ra = Done r \<and>
           msa_lens rb = msa_lens (gbl_init f') @ map (raw_len env ids) bs \<and>
           msa_lens r = msa_lens ra @ map (raw_len env ids) bs \<and>
           slices r = slices ra \<union> shift_range (sum_list (msa_lens ra)) ` slices rb"
    by (rule gbl_loop_shift[OF B]) (simp_all add: i)
  then show ?thesis
    using A la by (auto simp: gbl_loop_append)
qed

lemma gbl_gene_init_local:
  assumes run: "gbl_gene p ids env g (gbl_init f) = Done r"
  shows "slices r = local_slices p (env g) \<and> msa_lens r = [raw_len env ids g]"
proof -
  from run have ok: "sort (map fst (records_dict (raw_records (env g)))) = ids"
    by (auto simp: gbl_gene_def Let_def split: if_splits)
  from run obtain rows where rows: "lookup_all (records_dict (raw_records (env g))) ids = Inr rows"
    by (auto simp: gbl_gene_def Let_def split: if_splits sum.splits)
  from run rows obtain w where w: "raw_width rows = Inr w"
    by (auto simp: gbl_gene_def Let_def split: if_splits sum.splits)
  have rl: "raw_len env ids g = w" by (simp add: raw_len_def rows w)
  have i: "line_blocks (gbl_init f) = None" "msa_lens (gbl_init f) = []"
    "slices (gbl_init f) = {}"
    by (simp_all add: gbl_init_def)
  show ?thesis
  proof (cases "p = ''skip''")
    case True
    with run ok rows w rl i show ?thesis
      by (auto simp: gbl_gene_def Let_def local_slices_def)
  next
    case ns: False
    show ?thesis
    proof (cases "gblocks_run (env g)")
      case (Run_error e)
      with run ok rows w rl ns i show ?thesis
        by (auto simp: gbl_gene_def Let_def local_slices_def)
    next
      case (Run_ok out)
      from run ok rows w ns Run_ok obtain t lines where t: "trimmed out = Some t"
        and lines: "report out = Some lines"
        by (auto simp: gbl_gene_def Let_def split: option.splits)
      from run ok rows w ns Run_ok t lines i obtain blocks where
        b: "scan_report lines = Some blocks"
        by (auto simp: gbl_gene_def Let_def read_blocks_def split: option.splits)
      then have rb: "read_blocks None lines = Some blocks" by (simp add: read_blocks_def)
      show ?thesis
      proof (cases "blocks = ['''']")
        case True
        with run ok rows w rl ns Run_ok t lines rb b i show ?thesis
          by (auto simp: gbl_gene_def Let_def local_slices_def)
      next
        case nb: False
        from run ok rows w ns Run_ok t lines rb nb i obtain rs where
          rs: "block_slices 0 blocks = Inr rs" and sr: "slices r = set rs"
          and mr: "msa_lens r = [w]"
          by (auto simp: gbl_gene_def Let_def split: sum.splits)
        from ns Run_ok lines b nb rs have "local_slices p (env g) = set rs"
          by (simp add: local_slices_def)
        with sr mr rl show ?thesis by simp
      qed
    qed
  qed
qed

lemma gbl_loop_single_local:
  "gbl_loop p ids env [g] (gbl_init f) = Done r \<Longrightarrow>
   slices r = local_slices p (env g) \<and> msa_lens r = [raw_len env ids g]"
  using gbl_gene_init_local[of p ids env g f r] by (auto split: outcome.splits)

lemma shift_range_0: "shift_range 0 r = r"
  by (simp add: shift_range_def)

lemma shift_range_add: "shift_range d (shift_range e r) = shift_range (e + d) r"
  by (auto simp: shift_range_def image_image add.assoc)

lemma shift_global_ranges:
  "shift_range d ` global_ranges xs off = global_ranges xs (off + d)"
proof (induction xs arbitrary: off)
  case Nil
  then show ?case by simp
next
  case (Cons x xs)
  obtain rs w where x: "x = (rs, w)" by (cases x)
  have "shift_range d ` shift_range off ` rs = shift_range (off + d) ` rs"
    by (simp add: image_image shift_range_add)
  with Cons.IH[of "off + w"] show ?case
    by (simp add: x toGlobal_def image_Un add.commute add.left_commute)
qed

lemma gbl_loop_closed_form:
  assumes "\<forall>g \<in> set gs. \<exists>rg. gbl_loop p ids env [g] (gbl_init f) = Done rg"
  shows "\<exists>r. gbl_loop p ids env gs (gbl_init f) = Done r \<and>
           slices r = global_ranges
             (map (\<lambda>g. (local_slices p (env g), raw_len env ids g)) gs) 0"
  using assms
proof (induction gs)
  case Nil
  then show ?case by (simp add: gbl_init_def)
next
  case (Cons g gs)
  from Cons.prems obtain rg where rg: "gbl_loop p ids env [g] (gbl_init f) = Done rg"
    by auto
  from Cons.IH Cons.prems obtain rr where rr: "gbl_loop p ids env gs (gbl_init f) = Done rr"
    and sr: "slices rr = global_ranges
             (map (\<lambda>g. (local_slices p (env g), raw_len env ids g)) gs) 0"
    by auto
  from gbl_loop_additive[OF rg rr] obtain r where
    r: "gbl_loop p ids env ([g] @ gs) (gbl_init f) = Done r"
    and s: "slices r = slices rg \<union>
             shift_range (sum_list (map (raw_len env ids) [g])) ` slices rr"
    by blast
  from gbl_loop_single_local[OF rg] have lg: "slices rg = local_slices p (env g)" by simp
  have "slices r = global_ranges
             (map (\<lambda>g. (local_slices p (env g), raw_len env ids g)) (g # gs)) 0"
    unfolding s lg sr shift_global_ranges
    by (simp add: toGlobal_def shift_range_0 image_def)
  with r show ?case by simp
qed

text \<open>
  C7. The ranges of a gene are moved by the sum of the raw widths of the genes before it
  in the loop, the widths of the untrimmed alignments (\<open>raw_len\<close>): when every gene has
  its own report, the ranges the loop collects are those of the specification's
  \<open>toGlobal\<close>, applied gene after gene to the ranges each report lists, from offset 0.
  And the loop is additive in the offset: the ranges of the genes \<open>as @ bs\<close> are those
  of \<open>as\<close> together with those of \<open>bs\<close>, computed on their own, moved by the raw widths
  of \<open>as\<close>.
\<close>

theorem global_ranges_offset_additive:
  assumes A: "gbl_loop p ids env as (gbl_init f) = Done ra"
    and B: "gbl_loop p ids env bs (gbl_init f') = Done rb"
  shows "(\<exists>r. gbl_loop p ids env (as @ bs) (gbl_init f) = Done r \<and>
            msa_lens r = map (raw_len env ids) (as @ bs) \<and>
            slices r = slices ra \<union>
              shift_range (sum_list (map (raw_len env ids) as)) ` slices rb) \<and>
         ((\<forall>g \<in> set as. \<exists>rg. gbl_loop p ids env [g] (gbl_init f) = Done rg) \<longrightarrow>
            slices ra = global_ranges
              (map (\<lambda>g. (local_slices p (env g), raw_len env ids g)) as) 0)"
proof (intro conjI impI)
  show "\<exists>r. gbl_loop p ids env (as @ bs) (gbl_init f) = Done r \<and>
            msa_lens r = map (raw_len env ids) (as @ bs) \<and>
            slices r = slices ra \<union>
              shift_range (sum_list (map (raw_len env ids) as)) ` slices rb"
    using A B by (rule gbl_loop_additive)
next
  assume "\<forall>g \<in> set as. \<exists>rg. gbl_loop p ids env [g] (gbl_init f) = Done rg"
  from gbl_loop_closed_form[OF this] A
  show "slices ra = global_ranges
              (map (\<lambda>g. (local_slices p (env g), raw_len env ids g)) as) 0"
    by auto
qed


text \<open>The example data set, evaluated.\<close>

lemmas ex_eval = gbl_gene_def Let_def ex_env_def ex_ids_def records_dict_def upper_def
  upper_char_def raw_width_def read_blocks_def flank_header_def startswith_def endswith_def
  strip_def is_space_def split_def suffix_to_prefix block_slices_def py_int_def is_digit_def
  digit_val_def newline_def flank_report_def mismatch_msg_def gbl_init_def raw_len_def

lemma ex_run_ITS:
  "gbl_loop ''balanced'' ex_ids ex_env [''ITS''] (gbl_init Map.empty) =
     Done \<lparr>errors = [], msa_lens = [10], slices = {{0..<4}, {6..<10}},
           line_blocks = Some [''1  4'', ''7  10''],
           msa_files = [''ITS'' \<mapsto> ''>s1'' @ newline @ ''ACGTGTAC'' @ newline
                                      @ ''>s2'' @ newline @ ''ACGT-TAC'' @ newline],
           invoked = [''ITS'']\<rparr>"
  by (simp add: ex_eval)

lemma ex_run_EF1:
  "gbl_loop ''balanced'' ex_ids ex_env [''EF1''] (gbl_init Map.empty) =
     Done \<lparr>errors = [], msa_lens = [8], slices = {{2..<8}},
           line_blocks = Some [''3  8''],
           msa_files = [''EF1'' \<mapsto> ''>s2'' @ newline @ ''GACC-A'' @ newline
                                      @ ''>s1'' @ newline @ ''GACCGA'' @ newline],
           invoked = [''EF1'']\<rparr>"
  by (simp add: ex_eval)

lemma ex_raw_len_ITS: "raw_len ex_env ex_ids ''ITS'' = 10"
  by (simp add: ex_eval)

lemma ex_run_ITS_EF1:
  "gbl_loop ''balanced'' ex_ids ex_env [''ITS'', ''EF1''] (gbl_init Map.empty) =
     Done \<lparr>errors = [], msa_lens = [10, 8], slices = {{0..<4}, {6..<10}, {12..<18}},
           line_blocks = Some [''3  8''],
           msa_files = [''ITS'' \<mapsto> ''>s1'' @ newline @ ''ACGTGTAC'' @ newline
                                      @ ''>s2'' @ newline @ ''ACGT-TAC'' @ newline,
                        ''EF1'' \<mapsto> ''>s2'' @ newline @ ''GACC-A'' @ newline
                                      @ ''>s1'' @ newline @ ''GACCGA'' @ newline],
           invoked = [''ITS'', ''EF1'']\<rparr>"
  by (simp add: ex_eval insert_commute)

lemma ex_local_slices:
  "local_slices ''balanced'' (ex_env ''ITS'') = {{0..<4}, {6..<10}}"
  "local_slices ''balanced'' (ex_env ''EF1'') = {{2..<8}}"
  by (simp_all add: local_slices_def ex_eval)

lemma ex_raw_len_EF1: "raw_len ex_env ex_ids ''EF1'' = 8"
  by (simp add: ex_eval)

theorem global_ranges_offset_additive_witness:
  "map_option slices (final (gbl_loop ''balanced'' ex_ids ex_env [''ITS''] (gbl_init Map.empty)))
     = Some {{0..<4}, {6..<10}} \<and>
   map_option slices (final (gbl_loop ''balanced'' ex_ids ex_env [''EF1''] (gbl_init Map.empty)))
     = Some {{2..<8}} \<and>
   map_option slices
     (final (gbl_loop ''balanced'' ex_ids ex_env ([''ITS''] @ [''EF1'']) (gbl_init Map.empty)))
     = Some {{0..<4}, {6..<10}, {12..<18}} \<and>
   global_ranges [({{0..<4}, {6..<10}}, 10), ({{2..<8}}, 8)] 0
     = {{0..<4}, {6..<10}, {12..<18}} \<and>
   global_ranges (map (\<lambda>g. (local_slices ''balanced'' (ex_env g), raw_len ex_env ex_ids g))
                    [''ITS'', ''EF1'']) 0
     = {{0..<4}, {6..<10}, {12..<18}}"
proof -
  note T = global_ranges_offset_additive [OF ex_run_ITS ex_run_EF1]
  from T [THEN conjunct1]
  obtain r where r: "gbl_loop ''balanced'' ex_ids ex_env ([''ITS''] @ [''EF1'']) (gbl_init Map.empty) = Done r"
    and s: "slices r = {{0..<4}, {6..<10}} \<union> shift_range (sum_list (map (raw_len ex_env ex_ids) [''ITS''])) ` {{2..<8}}"
    by auto
  have "shift_range (sum_list (map (raw_len ex_env ex_ids) [''ITS''])) ` {{2..<8}} = {{12..<18}}"
    by (simp add: ex_raw_len_ITS shift_range_atLeastLessThan)
  with s have s': "slices r = {{0..<4}, {6..<10}, {12..<18}}" by auto
  have a: "map_option slices
      (final (gbl_loop ''balanced'' ex_ids ex_env [''ITS''] (gbl_init Map.empty)))
     = Some {{0..<4}, {6..<10}}"
    unfolding ex_run_ITS by (simp add: final_def)
  have b: "map_option slices
      (final (gbl_loop ''balanced'' ex_ids ex_env [''EF1''] (gbl_init Map.empty)))
     = Some {{2..<8}}"
    unfolding ex_run_EF1 by (simp add: final_def)
  have c: "map_option slices
      (final (gbl_loop ''balanced'' ex_ids ex_env ([''ITS''] @ [''EF1'']) (gbl_init Map.empty)))
     = Some {{0..<4}, {6..<10}, {12..<18}}"
    unfolding r by (simp add: final_def s')
  have e: "gbl_loop ''balanced'' ex_ids ex_env [] (gbl_init Map.empty) = Done (gbl_init Map.empty)"
    by simp
  have each: "\<forall>g \<in> set [''ITS'', ''EF1''].
      \<exists>rg. gbl_loop ''balanced'' ex_ids ex_env [g] (gbl_init Map.empty) = Done rg"
    using ex_run_ITS ex_run_EF1 by simp
  from global_ranges_offset_additive [OF ex_run_ITS_EF1 e, THEN conjunct2] each
  have d: "global_ranges (map (\<lambda>g. (local_slices ''balanced'' (ex_env g), raw_len ex_env ex_ids g))
                    [''ITS'', ''EF1'']) 0
     = {{0..<4}, {6..<10}, {12..<18}}"
    by simp
  then have d': "global_ranges [({{0..<4}, {6..<10}}, 10), ({{2..<8}}, 8)] 0
     = {{0..<4}, {6..<10}, {12..<18}}"
    by (simp only: list.map ex_local_slices ex_raw_len_ITS ex_raw_len_EF1)
  from a b c d' d show ?thesis by (intro conjI)
qed



section \<open>The trimming thread: failures of a gene\<close>

text \<open>
  What one pass does with a gene that fails. A gene whose raw alignment does not hold
  exactly the shared samples ends the whole run at once: the error is recorded,
  Gblocks is not run for the gene (\<open>invoked\<close> is unchanged) and no later gene is looked
  at. A gene for which the shell cannot be started (\<open>OSError\<close>), or for which Gblocks
  reports no block, adds its error to the list, and the loop goes on with the remaining
  genes. A gene for which Gblocks has failed and has written no trimmed alignment ends
  the thread with \<open>FileNotFoundError\<close> at \<open>shutil.move\<close>: no error is recorded and no
  later gene is looked at.
\<close>

lemma gbl_loop_gene_outcomes:
  "(sort (map fst (records_dict (raw_records (env g)))) \<noteq> shared_ids \<longrightarrow>
      gbl_loop preset shared_ids env (g # gs) st =
        Aborted (st\<lparr>errors := errors st @ [mismatch_msg g]\<rparr>)) \<and>
   (preset \<noteq> ''skip'' \<and>
    sort (map fst (records_dict (raw_records (env g)))) = shared_ids \<and>
    lookup_all (records_dict (raw_records (env g))) shared_ids = Inr rows \<and>
    raw_width rows = Inr w \<and> gblocks_run (env g) = Run_error e \<longrightarrow>
      gbl_loop preset shared_ids env (g # gs) st =
        gbl_loop preset shared_ids env gs
          (st\<lparr>msa_lens := msa_lens st @ [w], invoked := invoked st @ [g],
               errors := errors st @ [e]\<rparr>)) \<and>
   (preset \<noteq> ''skip'' \<and>
    sort (map fst (records_dict (raw_records (env g)))) = shared_ids \<and>
    lookup_all (records_dict (raw_records (env g))) shared_ids = Inr rows \<and>
    raw_width rows = Inr w \<and> gblocks_run (env g) = Run_ok out \<and>
    trimmed out = Some t \<and> report out = Some lines \<and> scan_report lines = Some [[]] \<longrightarrow>
      gbl_loop preset shared_ids env (g # gs) st =
        gbl_loop preset shared_ids env gs
          (st\<lparr>msa_lens := msa_lens st @ [w], invoked := invoked st @ [g],
               msa_files := (msa_files st)(g \<mapsto> t), line_blocks := Some [[]],
               errors := errors st @ [g @ '': no good blocks'']\<rparr>)) \<and>
   (preset \<noteq> ''skip'' \<and>
    sort (map fst (records_dict (raw_records (env g)))) = shared_ids \<and>
    lookup_all (records_dict (raw_records (env g))) shared_ids = Inr rows \<and>
    raw_width rows = Inr w \<and> gblocks_run (env g) = Run_ok out \<and> trimmed out = None \<longrightarrow>
      gbl_loop preset shared_ids env (g # gs) st = Crashed FileNotFoundError)"
  by (simp add: gbl_gene_def Let_def read_blocks_def)

lemma ex_gene_facts:
  "sort (map fst (records_dict (raw_records (ex_env ''LSU'')))) \<noteq> ex_ids"
  "sort (map fst (records_dict (raw_records (ex_env ''OPA'')))) = ex_ids"
  "lookup_all (records_dict (raw_records (ex_env ''OPA''))) ex_ids = Inr [''GGATCC'', ''GGATCC'']"
  "raw_width [''GGATCC'', ''GGATCC''] = Inr 6"
  "gblocks_run (ex_env ''OPA'') = Run_ok \<lparr>trimmed = None, report = None\<rparr>"
  "sort (map fst (records_dict (raw_records (ex_env ''RPB'')))) = ex_ids"
  "lookup_all (records_dict (raw_records (ex_env ''RPB''))) ex_ids = Inr [''A-C-G'', ''-T-C-'']"
  "raw_width [''A-C-G'', ''-T-C-''] = Inr 5"
  "gblocks_run (ex_env ''RPB'')
     = Run_ok \<lparr>trimmed = Some (''>s1'' @ newline @ ''>s2'' @ newline),
               report = Some (flank_report ''0'' [])\<rparr>"
  "scan_report (flank_report ''0'' []) = Some [[]]"
  by code_simp+

lemma ex_mismatch_aborts:
  "gbl_loop ''balanced'' ex_ids ex_env [''LSU'', ''ITS''] (gbl_init Map.empty) =
     Aborted ((gbl_init Map.empty)\<lparr>errors := [mismatch_msg ''LSU'']\<rparr>)"
  using gbl_loop_gene_outcomes [of ex_env "''LSU''" ex_ids "''balanced''" "[''ITS'']"
      "gbl_init Map.empty"] ex_gene_facts(1)
  by (simp add: gbl_init_def)

lemma ex_no_blocks_continues:
  "gbl_loop ''balanced'' ex_ids ex_env [''RPB'', ''EF1''] (gbl_init Map.empty) =
     gbl_loop ''balanced'' ex_ids ex_env [''EF1'']
       ((gbl_init Map.empty)\<lparr>msa_lens := [5], invoked := [''RPB''],
          msa_files := [''RPB'' \<mapsto> ''>s1'' @ newline @ ''>s2'' @ newline],
          line_blocks := Some [[]], errors := [''RPB: no good blocks'']\<rparr>)"
  using gbl_loop_gene_outcomes [of ex_env "''RPB''" ex_ids "''balanced''" "[''EF1'']"
      "gbl_init Map.empty" "[''A-C-G'', ''-T-C-'']" 5 _
      "\<lparr>trimmed = Some (''>s1'' @ newline @ ''>s2'' @ newline),
        report = Some (flank_report ''0'' [])\<rparr>"
      "''>s1'' @ newline @ ''>s2'' @ newline" "flank_report ''0'' []"] ex_gene_facts(6-10)
  by (simp add: gbl_init_def)

text \<open>
  C6. A failure of the trimmer for one gene is to be put on the error list, the loop
  going on with the next gene. For the gene \<open>OPA\<close>, on which Gblocks fails and writes no
  file, \<open>subprocess.run\<close> raises nothing (the command ends in \<open>; exit 0\<close>), so the handler
  that appends the error and continues is never entered: the thread ends with
  \<open>FileNotFoundError\<close>, nothing is reported and the gene \<open>EF1\<close> is never trimmed.
\<close>

theorem failed_trimmer_ends_thread:
  "gblocks_run (ex_env ''OPA'') = Run_ok \<lparr>trimmed = None, report = None\<rparr> \<and>
   gbl_loop ''balanced'' ex_ids ex_env [''OPA'', ''EF1''] (gbl_init Map.empty) =
     Crashed FileNotFoundError"
  using gbl_loop_gene_outcomes [of ex_env "''OPA''" ex_ids "''balanced''" "[''EF1'']"
      "gbl_init Map.empty" "[''GGATCC'', ''GGATCC'']" 6 _
      "\<lparr>trimmed = None, report = None\<rparr>"] ex_gene_facts(2-5)
  by simp

section \<open>The trimming thread: the preset \<open>skip\<close>\<close>

lemma skip_step:
  "gbl_gene ''skip'' ids env g st = Done st' \<Longrightarrow>
     st' = st\<lparr>msa_lens := msa_lens st @ [raw_len env ids g],
              msa_files := (msa_files st)(g \<mapsto> raw_msa (env g))\<rparr>"
  by (auto simp: gbl_gene_def Let_def raw_len_def split: if_splits sum.splits)

lemma skip_step_other:
  "gbl_gene ''skip'' ids env g st = Aborted st' \<Longrightarrow>
     st' = st\<lparr>errors := errors st @ [mismatch_msg g]\<rparr>"
  by (auto simp: gbl_gene_def Let_def raw_len_def split: if_splits sum.splits)

lemma skip_loop:
  "gbl_loop ''skip'' ids env gs st = Done r \<Longrightarrow>
     invoked r = invoked st \<and> slices r = slices st \<and> errors r = errors st \<and>
     msa_lens r = msa_lens st @ map (raw_len env ids) gs \<and>
     (\<forall>g \<in> set gs. msa_files r g = Some (raw_msa (env g))) \<and>
     (\<forall>g. g \<notin> set gs \<longrightarrow> msa_files r g = msa_files st g)"
proof (induction gs arbitrary: st)
  case Nil
  then show ?case by simp
next
  case (Cons g gs)
  from Cons.prems obtain st' where s: "gbl_gene ''skip'' ids env g st = Done st'"
    and l: "gbl_loop ''skip'' ids env gs st' = Done r"
    by (auto split: outcome.splits)
  note st' = skip_step[OF s]
  from Cons.IH[OF l] show ?case
    by (auto simp: st')
qed

lemma skip_loop_invoked:
  "gbl_loop ''skip'' ids env gs st = Aborted r \<Longrightarrow> invoked r = invoked st \<and> slices r = slices st"
proof (induction gs arbitrary: st)
  case Nil
  then show ?case by simp
next
  case (Cons g gs)
  show ?case
  proof (cases "gbl_gene ''skip'' ids env g st")
    case (Done st')
    with Cons.prems have "gbl_loop ''skip'' ids env gs st' = Aborted r" by simp
    from Cons.IH[OF this] skip_step[OF Done] show ?thesis by simp
  next
    case (Aborted st')
    with Cons.prems have "st' = r" by simp
    with skip_step_other[OF Aborted] have e: "r = st\<lparr>errors := errors st @ [mismatch_msg g]\<rparr>"
      by simp
    show ?thesis unfolding e by simp
  next
    case (Crashed e)
    with Cons.prems show ?thesis by simp
  qed
qed

lemma ex_run_skip: "gbl_loop ''skip'' ex_ids ex_env [''ITS''] (gbl_init Map.empty) =
   Done \<lparr>errors = [], msa_lens = [10], slices = {}, line_blocks = None,
     msa_files = [''ITS'' \<mapsto> raw_msa (ex_env ''ITS'')], invoked = []\<rparr>"
  by (simp add: ex_eval)

text \<open>
  C9, as the specification states it, asks for one retained range over the full raw
  width under \<open>skip\<close>. The loop records no range at all: for the gene \<open>ITS\<close> of raw
  width 10 the set of ranges stays empty.
\<close>

theorem skip_retained_range_counterexample:
  "map_option msa_lens (final (gbl_loop ''skip'' ex_ids ex_env [''ITS''] (gbl_init Map.empty)))
     = Some [10] \<and>
   map_option slices (final (gbl_loop ''skip'' ex_ids ex_env [''ITS''] (gbl_init Map.empty)))
     \<noteq> Some {{0..<10}}"
  unfolding ex_run_skip by (simp add: final_def)

text \<open>
  C9, amended. Under \<open>skip\<close> neither path runs Gblocks; the trimmed alignment of every
  gene the loop has passed is the raw alignment file, byte for byte; and no retained
  range is recorded.
\<close>

theorem skip_copies_raw_records_no_range:
  "trim_msa ''skip'' n = Copy_raw \<and>
   (gbl_loop ''skip'' ids env gs (gbl_init files) = Done r \<or>
    gbl_loop ''skip'' ids env gs (gbl_init files) = Aborted r \<longrightarrow>
      invoked r = [] \<and> slices r = {}) \<and>
   (gbl_loop ''skip'' ids env gs (gbl_init files) = Done r \<longrightarrow>
      (\<forall>g \<in> set gs. msa_files r g = Some (raw_msa (env g))))"
  using skip_loop[of ids env gs "gbl_init files" r]
    skip_loop_invoked[of ids env gs "gbl_init files" r]
  by (auto simp: trim_msa_def gbl_init_def)

theorem skip_copies_raw_records_no_range_witness:
  "gbl_loop ''skip'' ex_ids ex_env [''ITS''] (gbl_init Map.empty) =
     Done \<lparr>errors = [], msa_lens = [10], slices = {}, line_blocks = None,
           msa_files = [''ITS'' \<mapsto> raw_msa (ex_env ''ITS'')], invoked = []\<rparr> \<and>
   ''ITS'' \<in> set [''ITS''] \<and>
   [''ITS'' \<mapsto> raw_msa (ex_env ''ITS'')] ''ITS'' = Some (raw_msa (ex_env ''ITS''))"
  using skip_copies_raw_records_no_range [of 2 ex_ids ex_env "[''ITS'']" Map.empty
      "\<lparr>errors = [], msa_lens = [10], slices = {}, line_blocks = None,
           msa_files = [''ITS'' \<mapsto> raw_msa (ex_env ''ITS'')], invoked = []\<rparr>"]
    ex_run_skip
  by simp

section \<open>The trimming thread: reading the report\<close>

lemma split_at_no_sep:
  "sep \<noteq> [] \<Longrightarrow> hd sep \<notin> set x \<Longrightarrow> split_at sep acc x = [rev acc @ x]"
proof (induction x arbitrary: acc)
  case Nil
  then show ?case by simp
next
  case (Cons c cs)
  from Cons.prems have "\<not> prefix sep (c # cs)"
    by (cases sep) auto
  with Cons show ?case by simp
qed

lemma split_at_piece:
  "sep \<noteq> [] \<Longrightarrow> hd sep \<notin> set x \<Longrightarrow>
   split_at sep acc (x @ sep @ rest) = (rev acc @ x) # split_at sep [] rest"
proof (induction x arbitrary: acc)
  case Nil
  then obtain c cs where s: "sep @ rest = c # cs" by (cases sep) auto
  have "prefix sep (sep @ rest)" by simp
  then have "split_at sep acc (c # cs) = rev acc # split_at sep [] (drop (length sep) (c # cs))"
    using Nil.prems(1) by (simp add: s)
  then show ?case by (simp add: s[symmetric])
next
  case (Cons c cs)
  from Cons.prems have "\<not> prefix sep (c # cs @ sep @ rest)"
    by (cases sep) auto
  with Cons show ?case by simp
qed

lemma split_join_blocks:
  "bs \<noteq> [] \<Longrightarrow> \<forall>b \<in> set bs. CHR '']'' \<notin> set b \<Longrightarrow>
   split (join_blocks bs) '']  ['' = bs"
proof (induction bs rule: join_blocks.induct)
  case 1
  then show ?case by simp
next
  case (2 b)
  then show ?case by (simp add: split_def split_at_no_sep)
next
  case (3 b c bs)
  have "split_at '']  ['' [] (b @ '']  ['' @ join_blocks (c # bs))
          = (rev [] @ b) # split_at '']  ['' [] (join_blocks (c # bs))"
    using "3.prems" by (intro split_at_piece) simp_all
  with "3.IH" "3.prems" show ?case by (simp add: split_def)
qed

lemma is_digit_show_nat: "c \<in> set (show_nat n) \<Longrightarrow> is_digit c"
proof (induction n rule: show_nat.induct)
  case (1 n)
  have d: "is_digit (char_of (48 + k))" if "k < 10" for k :: nat
    using that by (simp add: is_digit_def)
  show ?case
  proof (cases "n < 10")
    case True
    from "1.prems" have "c \<in> set [char_of (48 + n)]"
      by (subst (asm) show_nat.simps) (simp add: True)
    with d[OF True] show ?thesis by simp
  next
    case False
    from "1.prems" have "c \<in> set (show_nat (n div 10)) \<or> c = char_of (48 + n mod 10)"
      by (subst (asm) show_nat.simps) (auto simp add: False)
    with "1.IH"[OF False] d[of "n mod 10"] show ?thesis by auto
  qed
qed

lemma show_nat_nonempty: "show_nat n \<noteq> []"
  by (subst show_nat.simps) simp

lemma digit_not_space: "is_digit c \<Longrightarrow> \<not> is_space c"
  by (auto simp: is_digit_def is_space_def Let_def)

lemma strip_no_space:
  assumes "\<forall>c \<in> set s. \<not> is_space c"
  shows "strip s = s"
proof (cases s rule: rev_cases)
  case Nil
  then show ?thesis by (simp add: strip_def)
next
  case (snoc ys y)
  have "dropWhile is_space s = s"
    using assms by (cases s) auto
  moreover have "dropWhile is_space (rev s) = rev s"
    using assms snoc by simp
  ultimately show ?thesis by (simp add: strip_def)
qed

lemma digits_from_all_digits:
  "\<forall>c \<in> set s. is_digit c \<Longrightarrow>
   digits_from acc s = Some (foldl (\<lambda>a c. 10 * a + digit_val c) acc s)"
  by (induction acc s rule: digits_from.induct) auto

lemma digit_val_char_of: "k < 10 \<Longrightarrow> digit_val (char_of (48 + k)) = k"
  by (simp add: digit_val_def)

lemma foldl_show_nat: "foldl (\<lambda>a c. 10 * a + digit_val c) 0 (show_nat n) = n"
proof (induction n rule: show_nat.induct)
  case (1 n)
  show ?case
  proof (cases "n < 10")
    case True
    then show ?thesis
      by (subst show_nat.simps) (simp add: digit_val_char_of)
  next
    case False
    with "1.IH" show ?thesis
      by (subst show_nat.simps) (simp add: digit_val_char_of)
  qed
qed

lemma py_int_show_nat: "py_int (show_nat n) = Inr (int n)"
proof -
  have d: "\<forall>c \<in> set (show_nat n). is_digit c"
    using is_digit_show_nat by blast
  then have st: "strip (show_nat n) = show_nat n"
    by (intro strip_no_space) (auto dest: digit_not_space)
  obtain c cs where cc: "show_nat n = c # cs"
    using show_nat_nonempty[of n] by (cases "show_nat n") auto
  with d have dc: "is_digit c" by simp
  then have ns: "c \<noteq> CHR ''-''" "c \<noteq> CHR ''+''"
    by (auto simp: is_digit_def)
  have "digits_from 0 (c # cs) = Some n"
    using digits_from_all_digits[OF d, of 0] foldl_show_nat[of n] by (simp add: cc)
  moreover have "strip (c # cs) = c # cs" using st by (simp add: cc)
  ultimately show ?thesis
    using dc ns by (simp add: py_int_def cc)
qed


lemma space_not_in_show_nat: "CHR '' '' \<notin> set (show_nat n)"
  using is_digit_show_nat[of "CHR '' ''" n] by (auto simp: is_digit_def)

lemma bracket_not_in_show_nat: "CHR '']'' \<notin> set (show_nat n)"
  using is_digit_show_nat[of "CHR '']''" n] by (auto simp: is_digit_def)

lemma bracket_not_in_block_text: "CHR '']'' \<notin> set (block_text p)"
  by (simp add: block_text_def bracket_not_in_show_nat)

lemma split_block_text: "split (block_text p) ''  '' = [show_nat (fst p), show_nat (snd p)]"
proof -
  have "split_at ''  '' [] (show_nat (fst p) @ ''  '' @ show_nat (snd p))
          = (rev [] @ show_nat (fst p)) # split_at ''  '' [] (show_nat (snd p))"
    by (intro split_at_piece) (simp_all add: space_not_in_show_nat)
  moreover have "split_at ''  '' [] (show_nat (snd p)) = [rev [] @ show_nat (snd p)]"
    by (intro split_at_no_sep) (simp_all add: space_not_in_show_nat)
  ultimately show ?thesis by (simp add: split_def block_text_def)
qed

lemma shifted_blocks_block_text:
  "shifted_blocks shift (map block_text pairs)
     = Inr (map (\<lambda>p. [int (fst p) + shift, int (snd p) + shift]) pairs)"
  by (induction pairs) (simp_all add: split_block_text py_int_show_nat)

lemma ranges_of_pairs:
  "ranges_of (map (\<lambda>p. [int (fst p) + shift, int (snd p) + shift]) pairs)
     = Inr (map (\<lambda>p. {int (fst p) + shift - 1..<int (snd p) + shift}) pairs)"
  by (induction pairs) simp_all

lemma block_slices_block_text:
  "block_slices shift (map block_text pairs)
     = Inr (map (\<lambda>p. {int (fst p) + shift - 1..<int (snd p) + shift}) pairs)"
  by (simp add: block_slices_def shifted_blocks_block_text ranges_of_pairs)

lemma block_text_nonempty: "block_text p \<noteq> []"
  by (simp add: block_text_def)

lemma scan_report_skip:
  "\<forall>l \<in> set pre. \<not> flank_header l \<Longrightarrow> scan_report (pre @ rest) = scan_report rest"
  by (induction pre) simp_all

lemma strip_flanks_line:
  "strip (flanks_line pairs) = ''Flanks: ['' @ join_blocks (map block_text pairs) @ '']''"
  by (simp add: flanks_line_def strip_def is_space_def)

lemma scan_flanks_line:
  assumes "pairs \<noteq> []" "\<forall>l \<in> set pre. \<not> flank_header l" "flank_header hdr"
  shows "scan_report (pre @ hdr # flanks_line pairs # post) = Some (map block_text pairs)"
proof -
  have "butlast (drop 9 (strip (flanks_line pairs))) = join_blocks (map block_text pairs)"
    by (simp add: strip_flanks_line butlast_append)
  moreover have "split (join_blocks (map block_text pairs)) '']  ['' = map block_text pairs"
    using assms(1) by (intro split_join_blocks) (auto simp: bracket_not_in_block_text)
  ultimately show ?thesis
    using assms(2,3) by (simp add: scan_report_skip)
qed

text \<open>
  C8. A report whose flank line lists the blocks \<open>[s  e]\<close>, first and last column counted
  from one, gives for every block the range from \<open>s - 1\<close> up to and excluding \<open>e\<close>, moved
  by the raw widths of the genes before: for the first gene, \<open>[1  50]\<close> and \<open>[80  120]\<close>
  become \<open>{0..<50}\<close> and \<open>{79..<120}\<close>.
\<close>

theorem flank_pairs_to_ranges:
  assumes "pairs \<noteq> []"
    and "\<forall>l \<in> set pre. \<not> flank_header l" and "flank_header hdr"
    and "preset \<noteq> ''skip''"
    and "sort (map fst (records_dict (raw_records (env g)))) = shared_ids"
    and "lookup_all (records_dict (raw_records (env g))) shared_ids = Inr rows"
    and "raw_width rows = Inr w"
    and "gblocks_run (env g) = Run_ok out" and "trimmed out = Some t"
    and "report out = Some (pre @ hdr # flanks_line pairs # post)"
  shows "gbl_gene preset shared_ids env g st =
           Done (st\<lparr>msa_lens := msa_lens st @ [w], invoked := invoked st @ [g],
                    msa_files := (msa_files st)(g \<mapsto> t),
                    line_blocks := Some (map block_text pairs),
                    slices := slices st \<union>
                      set (map (\<lambda>(s, e). {int s - 1 + int (sum_list (msa_lens st))
                                           ..<int e + int (sum_list (msa_lens st))}) pairs)\<rparr>)"
proof -
  have sc: "scan_report (pre @ hdr # flanks_line pairs # post) = Some (map block_text pairs)"
    using assms(1,2,3) by (rule scan_flanks_line)
  have ne: "map block_text pairs \<noteq> ['''']"
    using assms(1) by (cases pairs) (auto simp: block_text_nonempty)
  have "(\<lambda>p. {int (fst p) + int (sum_list (msa_lens st)) - 1
                 ..<int (snd p) + int (sum_list (msa_lens st))})
        = (\<lambda>(s, e). {int s - 1 + int (sum_list (msa_lens st))
                       ..<int e + int (sum_list (msa_lens st))})"
    by (auto simp: fun_eq_iff)
  then have bs: "block_slices (int (sum_list (msa_lens st))) (map block_text pairs)
      = Inr (map (\<lambda>(s, e). {int s - 1 + int (sum_list (msa_lens st))
                       ..<int e + int (sum_list (msa_lens st))}) pairs)"
    by (simp add: block_slices_block_text)
  show ?thesis
    using assms(4-10) sc ne bs
    by (simp add: gbl_gene_def Let_def read_blocks_def)
qed

lemma upper_replicate: "upper (replicate n c) = replicate n (upper_char c)"
  by (simp add: upper_def)

lemma upper_char_a_c: "upper_char CHR ''a'' = CHR ''A''" "upper_char CHR ''c'' = CHR ''C''"
  by code_simp+

theorem flank_pairs_to_ranges_witness:
  "report \<lparr>trimmed = Some (''>s1'' @ newline @ replicate 91 CHR ''A'' @ newline @ ''>s2''
                           @ newline @ replicate 91 CHR ''C'' @ newline),
           report = Some (flank_report ''2'' ''[1  50]  [80  120]  '')\<rparr>
     = Some ([''Gblocks 0.91b Results'' @ newline, newline]
             @ (''Flank positions of the 2 selected block(s)'' @ newline)
             # flanks_line [(1, 50), (80, 120)] # [newline]) \<and>
   gbl_gene ''balanced'' ex_ids ex_env ''COI'' (gbl_init Map.empty) =
     Done \<lparr>errors = [], msa_lens = [120], slices = {{0..<50}, {79..<120}},
           line_blocks = Some [''1  50'', ''80  120''],
           msa_files = [''COI'' \<mapsto> ''>s1'' @ newline @ replicate 91 CHR ''A'' @ newline
                                      @ ''>s2'' @ newline @ replicate 91 CHR ''C'' @ newline],
           invoked = [''COI'']\<rparr>"
proof -
  let ?out = "\<lparr>trimmed = Some (''>s1'' @ newline @ replicate 91 CHR ''A'' @ newline @ ''>s2''
                           @ newline @ replicate 91 CHR ''C'' @ newline),
           report = Some (flank_report ''2'' ''[1  50]  [80  120]  '')\<rparr>"
  let ?pre = "[''Gblocks 0.91b Results'' @ newline, newline]"
  let ?hdr = "''Flank positions of the 2 selected block(s)'' @ newline"
  have h1: "[(1, 50), (80, 120)] \<noteq> ([] :: (nat \<times> nat) list)" by simp
  have h2: "\<forall>l \<in> set ?pre. \<not> flank_header l" by code_simp
  have h3: "flank_header ?hdr" by code_simp
  have h4: "''balanced'' \<noteq> ''skip''" by simp
  have h5: "sort (map fst (records_dict (raw_records (ex_env ''COI'')))) = ex_ids"
    by (simp add: ex_env_def records_dict_def ex_ids_def)
  have h6: "lookup_all (records_dict (raw_records (ex_env ''COI''))) ex_ids
      = Inr [replicate 120 CHR ''A'', replicate 120 CHR ''C'']"
    by (simp add: ex_env_def records_dict_def ex_ids_def upper_replicate upper_char_a_c)
  have h7: "raw_width [replicate 120 CHR ''A'', replicate 120 CHR ''C''] = Inr 120"
    by (simp add: raw_width_def)
  have h8: "gblocks_run (ex_env ''COI'') = Run_ok ?out" by (simp add: ex_env_def)
  have h9: "trimmed ?out = Some (''>s1'' @ newline @ replicate 91 CHR ''A'' @ newline @ ''>s2''
                           @ newline @ replicate 91 CHR ''C'' @ newline)"
    by simp
  have h10: "report ?out = Some (?pre @ ?hdr # flanks_line [(1, 50), (80, 120)] # [newline])"
    by code_simp
  have bt: "block_text (Suc 0, 50) = ''1  50''" "block_text (80, 120) = ''80  120''"
    by code_simp+
  from flank_pairs_to_ranges [where pairs = "[(1, 50), (80, 120)]" and pre = ?pre
      and hdr = ?hdr and post = "[newline]" and st = "gbl_init Map.empty" and env = ex_env
      and g = "''COI''" and shared_ids = ex_ids and preset = "''balanced''",
      OF h1 h2 h3 h4 h5 h6 h7 h8 h9 h10]
  have "gbl_gene ''balanced'' ex_ids ex_env ''COI'' (gbl_init Map.empty) =
     Done \<lparr>errors = [], msa_lens = [120], slices = {{0..<50}, {79..<120}},
           line_blocks = Some [''1  50'', ''80  120''],
           msa_files = [''COI'' \<mapsto> ''>s1'' @ newline @ replicate 91 CHR ''A'' @ newline
                                      @ ''>s2'' @ newline @ replicate 91 CHR ''C'' @ newline],
           invoked = [''COI'']\<rparr>"
    by (simp add: bt gbl_init_def)
  with h10 show ?thesis by (intro conjI)
qed

section \<open>Concatenation: dictionaries and the join over the samples\<close>

lemma set_update_cases:
  "p \<in> set (AList.update k v al) \<Longrightarrow> p = (k, v) \<or> p \<in> set al"
  by (induction al) (auto split: if_splits)

lemma keys_foldl_update:
  "fst ` set (foldl (\<lambda>d r. AList.update (fst r) (f r) d) acc rs) = fst ` set acc \<union> fst ` set rs"
  by (induction rs arbitrary: acc) (auto simp: dom_update)

lemma keys_records_dict: "fst ` set (records_dict rs) = sample_ids rs"
  by (simp add: records_dict_def sample_ids_def keys_foldl_update)

lemma distinct_foldl_update:
  "distinct (map fst acc) \<Longrightarrow>
   distinct (map fst (foldl (\<lambda>d r. AList.update (fst r) (f r) d) acc rs))"
  by (induction rs arbitrary: acc) (auto simp: distinct_update)

lemma distinct_records_dict: "distinct (map fst (records_dict rs))"
  by (simp add: records_dict_def distinct_foldl_update)

lemma length_upper: "length (upper s) = length s"
  by (simp add: upper_def)

lemma widths_foldl_update:
  "\<forall>r \<in> set acc. length (snd r) = n \<Longrightarrow> \<forall>r \<in> set rs. length (snd r) = n \<Longrightarrow>
   \<forall>r \<in> set (foldl (\<lambda>d r. AList.update (fst r) (upper (snd r)) d) acc rs). length (snd r) = n"
proof (induction rs arbitrary: acc)
  case Nil
  then show ?case by simp
next
  case (Cons a rs)
  have "\<forall>r \<in> set (AList.update (fst a) (upper (snd a)) acc). length (snd r) = n"
    using Cons.prems by (auto dest!: set_update_cases simp: length_upper)
  with Cons show ?case by simp
qed

lemma widths_records_dict:
  "\<forall>r \<in> set rs. length (snd r) = n \<Longrightarrow> \<forall>r \<in> set (records_dict rs). length (snd r) = n"
  unfolding records_dict_def by (rule widths_foldl_update) simp_all

lemma records_dict_empty: "records_dict rs = [] \<longleftrightarrow> rs = []"
proof -
  have "fst ` set (records_dict rs) = {} \<longleftrightarrow> fst ` set rs = {}"
    by (simp add: keys_records_dict sample_ids_def)
  then show ?thesis by simp
qed

lemma map_of_foldl_genes:
  "map_of (foldl (\<lambda>d gene. AList.update gene (f gene) d) acc genes) g =
     (if g \<in> set genes then Some (f g) else map_of acc g)"
  by (induction genes arbitrary: acc) (auto simp: update_conv')

lemma map_of_read_all:
  "map_of (read_all parsed genes) g =
     (if g \<in> set genes then Some (records_dict (parsed g)) else None)"
  by (simp add: read_all_def map_of_foldl_genes)

lemma update_fresh: "k \<notin> fst ` set al \<Longrightarrow> AList.update k v al = al @ [(k, v)]"
  by (induction al) auto

lemma foldl_update_distinct:
  "distinct genes \<Longrightarrow>
   foldl (\<lambda>d gene. AList.update gene (f gene) d) [] genes = map (\<lambda>g. (g, f g)) genes"
proof (induction genes rule: rev_induct)
  case Nil
  then show ?case by simp
next
  case (snoc g gs)
  then have "g \<notin> fst ` set (map (\<lambda>g. (g, f g)) gs)" by (auto simp: image_iff)
  with snoc show ?case by (simp add: update_fresh)
qed

lemma read_all_distinct:
  "distinct genes \<Longrightarrow> read_all parsed genes = map (\<lambda>g. (g, records_dict (parsed g))) genes"
  by (simp add: read_all_def foldl_update_distinct)

lemma ids_of_read_all:
  "ids_of (read_all parsed genes) g = (if g \<in> set genes then sample_ids (parsed g) else {})"
  by (simp add: ids_of_def map_of_read_all keys_records_dict)

lemma rect_read_all:
  "\<forall>g \<in> set genes. \<forall>r \<in> set (parsed g). length (snd r) = w g \<Longrightarrow>
   rect w (read_all parsed genes)"
proof -
  assume a: "\<forall>g \<in> set genes. \<forall>r \<in> set (parsed g). length (snd r) = w g"
  show ?thesis
    unfolding rect_def
  proof (intro allI impI)
    fix gene d
    assume "map_of (read_all parsed genes) gene = Some d"
    then have g: "gene \<in> set genes" and d: "d = records_dict (parsed gene)"
      by (auto simp: map_of_read_all split: if_splits)
    from a g have "\<forall>r \<in> set (parsed gene). length (snd r) = w gene" by blast
    then show "\<forall>r \<in> set d. length (snd r) = w gene"
      unfolding d by (rule widths_records_dict)
  qed
qed

lemma keys_delete: "fst ` set (AList.delete k d) = fst ` set d - {k}"
  by (induction d) auto

lemma pop_record_Inl:
  "(\<exists>e. pop_record rs g s = Inl e) \<longleftrightarrow> s \<notin> ids_of rs g"
proof (cases "map_of rs g")
  case None
  then show ?thesis by (simp add: pop_record_def ids_of_def)
next
  case (Some d)
  show ?thesis
  proof (cases "map_of d s")
    case None
    then have "s \<notin> fst ` set d" by (simp add: map_of_eq_None_iff)
    with Some None show ?thesis by (simp add: pop_record_def ids_of_def dict_pop_def)
  next
    case (Some v)
    then have "(s, v) \<in> set d" by (rule map_of_SomeD)
    then have "s \<in> fst ` set d" by force
    with \<open>map_of rs g = Some d\<close> Some show ?thesis
      by (simp add: pop_record_def ids_of_def dict_pop_def)
  qed
qed

lemma pop_record_Inr:
  assumes "pop_record rs g s = Inr (v, rs')"
  shows "s \<in> ids_of rs g"
    and "ids_of rs' g' = (if g' = g then ids_of rs g - {s} else ids_of rs g')"
    and "rect w rs \<Longrightarrow> rect w rs' \<and> length v = w g"
proof -
  from assms obtain d where d: "map_of rs g = Some d" and v: "map_of d s = Some v"
    and rs': "rs' = AList.update g (AList.delete s d) rs"
    by (auto simp: pop_record_def dict_pop_def split: option.splits)
  from v have "(s, v) \<in> set d" by (rule map_of_SomeD)
  then show "s \<in> ids_of rs g" by (force simp: ids_of_def d)
  show "ids_of rs' g' = (if g' = g then ids_of rs g - {s} else ids_of rs g')"
    by (simp add: ids_of_def rs' update_conv' d keys_delete)
  assume r: "rect w rs"
  have "length v = w g"
    using r d \<open>(s, v) \<in> set d\<close> by (fastforce simp: rect_def)
  moreover have "rect w rs'"
    unfolding rect_def
  proof (intro allI impI)
    fix gene d'
    assume m: "map_of rs' gene = Some d'"
    show "\<forall>r \<in> set d'. length (snd r) = w gene"
    proof (cases "gene = g")
      case True
      with m have "d' = AList.delete s d" by (simp add: rs' update_conv')
      then have "set d' \<subseteq> set d" by (auto simp: AList.delete_eq)
      with r d True show ?thesis by (fastforce simp: rect_def)
    next
      case False
      with m have "map_of rs gene = Some d'" by (simp add: rs' update_conv')
      with r show ?thesis by (simp add: rect_def)
    qed
  qed
  ultimately show "rect w rs' \<and> length v = w g" by simp
qed

lemma keys_map_entry: "map fst (AList.map_entry k f m) = map fst m"
  by (induction m) auto

lemma append_genes_step_miss:
  "s \<notin> ids_of (recs st) g \<Longrightarrow>
   append_genes sep s (g # gs) st =
     append_genes sep s gs
       (st\<lparr>row := row st @ sep, skip := True,
           missing := AList.map_entry g (\<lambda>l. l @ [s]) (missing st)\<rparr>)"
  using pop_record_Inl[of "recs st" g s]
  by (auto simp: Let_def split: sum.splits)

lemma append_genes_step_hit:
  "pop_record (recs st) g s = Inr (v, rs') \<Longrightarrow>
   append_genes sep s (g # gs) st =
     append_genes sep s gs (st\<lparr>row := row st @ sep @ v, recs := rs'\<rparr>)"
  by (simp add: Let_def)

lemma pop_record_cases:
  obtains (miss) "s \<notin> ids_of rs g" | (hit) v rs' where "pop_record rs g s = Inr (v, rs')"
  using pop_record_Inl[of rs g s] by (cases "pop_record rs g s") auto

lemma append_genes_skip_mono: "skip st \<Longrightarrow> skip (append_genes sep s gs st)"
proof (induction gs arbitrary: st)
  case Nil
  then show ?case by simp
next
  case (Cons g gs)
  show ?case
  proof (cases rule: pop_record_cases[of s "recs st" g])
    case miss
    show ?thesis
      unfolding append_genes_step_miss[OF miss] by (rule Cons.IH) simp
  next
    case (hit v rs')
    show ?thesis
      unfolding append_genes_step_hit[OF hit] by (rule Cons.IH) (simp add: Cons.prems)
  qed
qed

lemma append_genes_skip:
  "distinct gs \<Longrightarrow>
   skip (append_genes sep s gs st) \<longleftrightarrow> skip st \<or> (\<exists>g \<in> set gs. s \<notin> ids_of (recs st) g)"
proof (induction gs arbitrary: st)
  case Nil
  then show ?case by simp
next
  case (Cons g gs)
  from Cons.prems have ng: "g \<notin> set gs" and dg: "distinct gs" by simp_all
  show ?case
  proof (cases rule: pop_record_cases[of s "recs st" g])
    case miss
    then show ?thesis
      unfolding append_genes_step_miss[OF miss] by (simp add: append_genes_skip_mono)
  next
    case (hit v rs')
    note p = pop_record_Inr(1,2)[OF hit]
    have "\<forall>g' \<in> set gs. ids_of rs' g' = ids_of (recs st) g'"
      using ng by (auto simp: p(2))
    then show ?thesis
      unfolding append_genes_step_hit[OF hit] using p(1) by (simp add: Cons.IH[OF dg])
  qed
qed

lemma append_genes_ids:
  "distinct gs \<Longrightarrow>
   ids_of (recs (append_genes sep s gs st)) g' =
     (if g' \<in> set gs then ids_of (recs st) g' - {s} else ids_of (recs st) g')"
proof (induction gs arbitrary: st)
  case Nil
  then show ?case by simp
next
  case (Cons g gs)
  from Cons.prems have ng: "g \<notin> set gs" and dg: "distinct gs" by simp_all
  show ?case
  proof (cases rule: pop_record_cases[of s "recs st" g])
    case miss
    then show ?thesis
      unfolding append_genes_step_miss[OF miss] using ng by (auto simp: Cons.IH[OF dg])
  next
    case (hit v rs')
    note p = pop_record_Inr(1,2)[OF hit]
    show ?thesis
      unfolding append_genes_step_hit[OF hit] using ng by (auto simp: Cons.IH[OF dg] p(2))
  qed
qed

lemma append_genes_missing_keys:
  "map fst (missing (append_genes sep s gs st)) = map fst (missing st)"
proof (induction gs arbitrary: st)
  case Nil
  then show ?case by simp
next
  case (Cons g gs)
  show ?case
  proof (cases rule: pop_record_cases[of s "recs st" g])
    case miss
    show ?thesis
      unfolding append_genes_step_miss[OF miss] by (simp add: Cons.IH keys_map_entry)
  next
    case (hit v rs')
    show ?thesis
      unfolding append_genes_step_hit[OF hit] by (simp add: Cons.IH)
  qed
qed

lemma append_genes_missing:
  "distinct gs \<Longrightarrow>
   map_of (missing (append_genes sep s gs st)) g' =
     (if g' \<in> set gs \<and> s \<notin> ids_of (recs st) g'
      then map_option (\<lambda>l. l @ [s]) (map_of (missing st) g')
      else map_of (missing st) g')"
proof (induction gs arbitrary: st)
  case Nil
  then show ?case by simp
next
  case (Cons g gs)
  from Cons.prems have ng: "g \<notin> set gs" and dg: "distinct gs" by simp_all
  show ?case
  proof (cases rule: pop_record_cases[of s "recs st" g])
    case miss
    have m1: "map_of (AList.map_entry g (\<lambda>l. l @ [s]) (missing st)) x =
       (if x = g then map_option (\<lambda>l. l @ [s]) (map_of (missing st) x) else map_of (missing st) x)"
      for x
      by (simp add: map_of_map_entry split: option.splits)
    show ?thesis
      unfolding append_genes_step_miss[OF miss] using ng miss
      by (auto simp: Cons.IH[OF dg] m1)
  next
    case (hit v rs')
    note p = pop_record_Inr(1,2)[OF hit]
    show ?thesis
      unfolding append_genes_step_hit[OF hit] using ng p(1)
      by (auto simp: Cons.IH[OF dg] p(2))
  qed
qed

lemma append_genes_width:
  assumes "rect w (recs st)"
  shows "rect w (recs (append_genes sep s gs st)) \<and>
         (\<not> skip (append_genes sep s gs st) \<longrightarrow>
            length (row (append_genes sep s gs st)) =
              length (row st) + (\<Sum>g\<leftarrow>gs. length sep + w g))"
  using assms
proof (induction gs arbitrary: st)
  case Nil
  then show ?case by simp
next
  case (Cons g gs)
  show ?case
  proof (cases rule: pop_record_cases[of s "recs st" g])
    case miss
    let ?st1 = "st\<lparr>row := row st @ sep, skip := True,
           missing := AList.map_entry g (\<lambda>l. l @ [s]) (missing st)\<rparr>"
    have e: "append_genes sep s (g # gs) st = append_genes sep s gs ?st1"
      using miss by (rule append_genes_step_miss)
    have "skip (append_genes sep s gs ?st1)"
      by (rule append_genes_skip_mono) simp
    with Cons.IH[of ?st1] Cons.prems show ?thesis
      unfolding e by simp
  next
    case (hit v rs')
    let ?st1 = "st\<lparr>row := row st @ sep @ v, recs := rs'\<rparr>"
    have e: "append_genes sep s (g # gs) st = append_genes sep s gs ?st1"
      using hit by (rule append_genes_step_hit)
    from pop_record_Inr(3)[OF hit Cons.prems] have r: "rect w rs'" and l: "length v = w g"
      by simp_all
    from Cons.IH[of ?st1] r l show ?thesis
      unfolding e by simp
  qed
qed

lemma sample_loop_width:
  assumes "sample_loop sep g0 others order st = Inr st'"
    and "rect w (all_records st)"
    and "\<forall>r \<in> set (msa st). length (snd r) = w g0 + (\<Sum>g\<leftarrow>others. length sep + w g)"
  shows "\<forall>r \<in> set (msa st'). length (snd r) = w g0 + (\<Sum>g\<leftarrow>others. length sep + w g)"
  using assms
proof (induction order arbitrary: st)
  case Nil
  then show ?case by simp
next
  case (Cons s rest)
  from Cons.prems(1) obtain v recs0 where p: "pop_record (all_records st) g0 s = Inr (v, recs0)"
    by (auto split: sum.splits)
  define r where "r = append_genes sep s others
                     \<lparr>row = v, skip = False, recs = recs0, missing = missing_genes st\<rparr>"
  define st1 where "st1 = st\<lparr>all_records := recs r, missing_genes := missing r\<rparr>"
  define st2 where "st2 = (if skip r then st1
                 else st1\<lparr>msa := msa st1 @ [(s, row r)], shared := shared st1 + 1\<rparr>)"
  have e: "sample_loop sep g0 others (s # rest) st = sample_loop sep g0 others rest st2"
    using p by (simp add: Let_def r_def st1_def st2_def)
  from pop_record_Inr(3)[OF p Cons.prems(2)] have r0: "rect w recs0" and lv: "length v = w g0"
    by simp_all
  from append_genes_width[of w "\<lparr>row = v, skip = False, recs = recs0, missing = missing_genes st\<rparr>" sep s others]
    r0 lv
  have rr: "rect w (recs r)"
    and lr: "\<not> skip r \<Longrightarrow> length (row r) = w g0 + (\<Sum>g\<leftarrow>others. length sep + w g)"
    by (simp_all add: r_def)
  have a: "rect w (all_records st2)" using rr by (simp add: st2_def st1_def)
  have b: "\<forall>r \<in> set (msa st2). length (snd r) = w g0 + (\<Sum>g\<leftarrow>others. length sep + w g)"
    using Cons.prems(3) lr by (auto simp: st2_def st1_def)
  from Cons.prems(1) have "sample_loop sep g0 others rest st2 = Inr st'" by (simp only: e)
  from Cons.IH[OF this a b] show ?case .
qed

lemma sample_loop_join:
  assumes "distinct order" "set order \<subseteq> ids_of (all_records st) g0"
    and "g0 \<notin> set others" "distinct others"
  shows "\<exists>st'. sample_loop sep g0 others order st = Inr st' \<and>
           map fst (msa st') = map fst (msa st) @
             filter (\<lambda>s. \<forall>g \<in> set others. s \<in> ids_of (all_records st) g) order \<and>
           shared st' = shared st +
             length (filter (\<lambda>s. \<forall>g \<in> set others. s \<in> ids_of (all_records st) g) order) \<and>
           (\<forall>g. ids_of (all_records st') g =
                (if g = g0 \<or> g \<in> set others then ids_of (all_records st) g - set order
                 else ids_of (all_records st) g)) \<and>
           (\<forall>g. map_of (missing_genes st') g =
                (if g \<in> set others
                 then map_option (\<lambda>l. l @ filter (\<lambda>s. s \<notin> ids_of (all_records st) g) order)
                        (map_of (missing_genes st) g)
                 else map_of (missing_genes st) g)) \<and>
           map fst (missing_genes st') = map fst (missing_genes st)"
  using assms(1,2)
proof (induction order arbitrary: st)
  case Nil
  then show ?case by (simp add: option.map_ident)
next
  case (Cons s rest)
  from Cons.prems have sin: "s \<in> ids_of (all_records st) g0" and sn: "s \<notin> set rest"
    and dr: "distinct rest" and sub: "set rest \<subseteq> ids_of (all_records st) g0"
    by simp_all
  from sin obtain v recs0 where p: "pop_record (all_records st) g0 s = Inr (v, recs0)"
    by (cases rule: pop_record_cases[of s "all_records st" g0]) auto
  define r where "r = append_genes sep s others
                     \<lparr>row = v, skip = False, recs = recs0, missing = missing_genes st\<rparr>"
  define st1 where "st1 = st\<lparr>all_records := recs r, missing_genes := missing r\<rparr>"
  define st2 where "st2 = (if skip r then st1
                 else st1\<lparr>msa := msa st1 @ [(s, row r)], shared := shared st1 + 1\<rparr>)"
  have e: "sample_loop sep g0 others (s # rest) st = sample_loop sep g0 others rest st2"
    using p by (simp add: Let_def r_def st1_def st2_def)
  have i0: "ids_of recs0 g = (if g = g0 then ids_of (all_records st) g0 - {s}
                              else ids_of (all_records st) g)" for g
    by (rule pop_record_Inr(2)[OF p])
  have i0': "\<forall>g \<in> set others. ids_of recs0 g = ids_of (all_records st) g"
    using assms(3) by (auto simp: i0)
  have sk: "skip r \<longleftrightarrow> (\<exists>g \<in> set others. s \<notin> ids_of (all_records st) g)"
    using i0' by (simp add: r_def append_genes_skip[OF assms(4)])
  have ids2: "ids_of (all_records st2) g =
      (if g = g0 \<or> g \<in> set others then ids_of (all_records st) g - {s}
       else ids_of (all_records st) g)" for g
    using assms(3) by (auto simp: st2_def st1_def r_def append_genes_ids[OF assms(4)] i0)
  have mk: "map fst (missing_genes st2) = map fst (missing_genes st)"
    by (simp add: st2_def st1_def r_def append_genes_missing_keys)
  have mm: "map_of (missing_genes st2) g =
      (if g \<in> set others \<and> s \<notin> ids_of (all_records st) g
       then map_option (\<lambda>l. l @ [s]) (map_of (missing_genes st) g)
       else map_of (missing_genes st) g)" for g
    using i0' by (auto simp: st2_def st1_def r_def append_genes_missing[OF assms(4)])
  have ms: "map fst (msa st2) = map fst (msa st) @
      (if \<forall>g \<in> set others. s \<in> ids_of (all_records st) g then [s] else [])"
    using sk by (auto simp: st2_def st1_def)
  have sh: "shared st2 = shared st +
      (if \<forall>g \<in> set others. s \<in> ids_of (all_records st) g then 1 else 0)"
    using sk by (auto simp: st2_def st1_def)
  have same: "x \<in> ids_of (all_records st2) g \<longleftrightarrow> x \<in> ids_of (all_records st) g"
    if "x \<in> set rest" for x g
    using that sn by (auto simp: ids2)
  have sub2: "set rest \<subseteq> ids_of (all_records st2) g0"
    using sub sn by (auto simp: ids2)
  have f1: "filter (\<lambda>x. \<forall>g \<in> set others. x \<in> ids_of (all_records st2) g) rest
          = filter (\<lambda>x. \<forall>g \<in> set others. x \<in> ids_of (all_records st) g) rest"
    by (rule filter_cong) (simp_all add: same)
  have f2: "filter (\<lambda>x. x \<notin> ids_of (all_records st2) g) rest
          = filter (\<lambda>x. x \<notin> ids_of (all_records st) g) rest" for g
    by (rule filter_cong) (simp_all add: same)
  from Cons.IH[OF dr sub2] obtain st' where
    l: "sample_loop sep g0 others rest st2 = Inr st'"
    and a: "map fst (msa st') = map fst (msa st2) @
             filter (\<lambda>s. \<forall>g \<in> set others. s \<in> ids_of (all_records st2) g) rest"
    and b: "shared st' = shared st2 +
             length (filter (\<lambda>s. \<forall>g \<in> set others. s \<in> ids_of (all_records st2) g) rest)"
    and c: "\<And>g. ids_of (all_records st') g =
                (if g = g0 \<or> g \<in> set others then ids_of (all_records st2) g - set rest
                 else ids_of (all_records st2) g)"
    and d: "\<And>g. map_of (missing_genes st') g =
                (if g \<in> set others
                 then map_option (\<lambda>l. l @ filter (\<lambda>s. s \<notin> ids_of (all_records st2) g) rest)
                        (map_of (missing_genes st2) g)
                 else map_of (missing_genes st2) g)"
    and k: "map fst (missing_genes st') = map fst (missing_genes st2)"
    by blast
  have "sample_loop sep g0 others (s # rest) st = Inr st'" by (simp only: e l)
  moreover have "map fst (msa st') = map fst (msa st) @
             filter (\<lambda>s. \<forall>g \<in> set others. s \<in> ids_of (all_records st) g) (s # rest)"
    by (simp add: a f1 ms)
  moreover have "shared st' = shared st +
             length (filter (\<lambda>s. \<forall>g \<in> set others. s \<in> ids_of (all_records st) g) (s # rest))"
    by (simp add: b f1 sh)
  moreover have "ids_of (all_records st') g =
                (if g = g0 \<or> g \<in> set others then ids_of (all_records st) g - set (s # rest)
                 else ids_of (all_records st) g)" for g
    by (auto simp: c ids2)
  moreover have "map_of (missing_genes st') g =
                (if g \<in> set others
                 then map_option (\<lambda>l. l @ filter (\<lambda>s. s \<notin> ids_of (all_records st) g) (s # rest))
                        (map_of (missing_genes st) g)
                 else map_of (missing_genes st) g)" for g
    by (simp add: d f2 mm option.map_comp comp_def)
  moreover have "map fst (missing_genes st') = map fst (missing_genes st)"
    by (simp add: k mk)
  ultimately show ?case by blast
qed

lemma choice_in_set: "xs \<noteq> [] \<Longrightarrow> \<exists>x \<in> set xs. choice r xs = Inr x"
  by (simp add: choice_def)

lemma msa_len_loop_ok:
  "\<forall>p \<in> set al. snd p \<noteq> [] \<Longrightarrow> \<exists>n'. msa_len_loop rnd al n = Inr n'"
proof (induction al arbitrary: n)
  case Nil
  then show ?case by simp
next
  case (Cons p al)
  obtain g d where p: "p = (g, d)" by (cases p)
  with Cons.prems have "map snd d \<noteq> []" by simp
  from choice_in_set[OF this, of "rnd g"] obtain x where "choice (rnd g) (map snd d) = Inr x"
    by blast
  with Cons show ?case by (simp add: p)
qed

lemma msa_len_loop_rect:
  "\<forall>p \<in> set al. snd p \<noteq> [] \<and> (\<forall>r \<in> set (snd p). length (snd r) = w (fst p)) \<Longrightarrow>
   msa_len_loop rnd al n = Inr (n + (\<Sum>p\<leftarrow>al. w (fst p)))"
proof (induction al arbitrary: n)
  case Nil
  then show ?case by simp
next
  case (Cons p al)
  obtain g d where p: "p = (g, d)" by (cases p)
  with Cons.prems have ne: "map snd d \<noteq> []" and wd: "\<forall>r \<in> set d. length (snd r) = w g"
    by simp_all
  from choice_in_set[OF ne, of "rnd g"] obtain x where x: "x \<in> set (map snd d)"
    and c: "choice (rnd g) (map snd d) = Inr x"
    by blast
  from x wd have "length x = w g" by auto
  with Cons c show ?case by (simp add: p)
qed

lemma extend_first_keys: "map fst (extend_first g0 others left m) = map fst m"
  unfolding extend_first_def
  by (induction others arbitrary: m) (simp_all add: keys_map_entry)

lemma extend_first_map_of:
  "map_of (extend_first g0 others left m) g =
     (if g = g0
      then map_option (\<lambda>l. l @ concat (map (\<lambda>gene. case map_of left gene of None \<Rightarrow> []
                                                    | Some d \<Rightarrow> map fst d) others))
             (map_of m g0)
      else map_of m g)"
  unfolding extend_first_def
proof (induction others arbitrary: m)
  case Nil
  then show ?case by (simp add: option.map_ident)
next
  case (Cons a others)
  show ?case
    by (simp add: Cons.IH map_of_map_entry option.map_comp comp_def split: option.splits)
qed

lemma set_left_keys:
  "set (case map_of left gene of None \<Rightarrow> [] | Some d \<Rightarrow> map fst d) = ids_of left gene"
  by (simp add: ids_of_def split: option.splits)

lemma dict_by_keys:
  "distinct (map fst m) \<Longrightarrow> m = map (\<lambda>k. (k, the (map_of m k))) (map fst m)"
proof (induction m)
  case Nil
  then show ?case by simp
next
  case (Cons p m)
  obtain k v where p: "p = (k, v)" by (cases p)
  from Cons.prems have nk: "k \<notin> fst ` set m" and dm: "distinct (map fst m)"
    by (simp_all add: p)
  have "map (\<lambda>x. (x, the (map_of ((k, v) # m) x))) (map fst m)
        = map (\<lambda>x. (x, the (map_of m x))) (map fst m)"
    using nk by (intro map_cong) auto
  with Cons.IH[OF dm] show ?case by (simp add: p)
qed

lemma missing0_distinct:
  "distinct genes \<Longrightarrow>
   foldl (\<lambda>d gene. AList.update gene [] d) [] genes = map (\<lambda>g. (g, [])) genes"
  by (rule foldl_update_distinct)

lemma concat_msa_unfold:
  assumes "msa_len_loop rnd (read_all parsed (g0 # others)) 0 = Inr n"
    and "sample_loop sep g0 others order
           \<lparr>all_records = read_all parsed (g0 # others),
              missing_genes = foldl (\<lambda>d gene. AList.update gene [] d) [] (g0 # others),
              msa = [], shared = 0\<rparr> = Inr st"
  shows "concat_msa parsed (g0 # others) sep rnd order =
           (if (others \<noteq> [] \<and> shared st = 0) \<or> (others = [] \<and> n = 0) then Inl (SystemExit 1)
            else Inr \<lparr>msa_file = msa st, msa_shape = (n, shared st),
                       missing_report = map (\<lambda>(gene, samples). (gene, set samples))
                         (extend_first g0 others (all_records st) (missing_genes st))\<rparr>)"
  using assms by (simp add: concat_msa_def Let_def)

lemma concat_msa_join:
  assumes dg: "distinct (g0 # others)" and dor: "distinct order"
    and so: "set order = sample_ids (parsed g0)"
    and ml: "msa_len_loop rnd (read_all parsed (g0 # others)) 0 = Inr n"
  defines "J \<equiv> filter (\<lambda>s. \<forall>g \<in> set others. s \<in> sample_ids (parsed g)) order"
  shows "(if (others \<noteq> [] \<and> J = []) \<or> (others = [] \<and> n = 0)
          then concat_msa parsed (g0 # others) sep rnd order = Inl (SystemExit 1)
          else \<exists>r. concat_msa parsed (g0 # others) sep rnd order = Inr r \<and>
                 map fst (msa_file r) = J \<and> msa_shape r = (n, length J) \<and>
                 missing_report r =
                   map (\<lambda>g. (g, if g = g0
                                 then (\<Union>g' \<in> set others. sample_ids (parsed g')) - sample_ids (parsed g0)
                                 else sample_ids (parsed g0) - sample_ids (parsed g)))
                     (g0 # others))"
proof -
  let ?genes = "g0 # others"
  let ?all = "read_all parsed ?genes"
  define mz where "mz = foldl (\<lambda>d gene. AList.update gene ([] :: string list) d) [] ?genes"
  let ?m0 = "mz"
  let ?st0 = "\<lparr>all_records = ?all, missing_genes = ?m0, msa = [], shared = 0\<rparr>"
  have ids0: "ids_of ?all g = (if g \<in> set ?genes then sample_ids (parsed g) else {})" for g
    by (rule ids_of_read_all)
  have m0: "?m0 = map (\<lambda>g. (g, [])) ?genes"
    unfolding mz_def using dg by (rule missing0_distinct)
  have m0_of: "map_of ?m0 g = (if g \<in> set ?genes then Some [] else None)" for g
    unfolding m0 by (simp add: map_of_map_restrict restrict_map_def)
  from dg have g0n: "g0 \<notin> set others" and dot: "distinct others" by simp_all
  have sub: "set order \<subseteq> ids_of (all_records ?st0) g0"
    by (simp add: ids0 so)
  from sample_loop_join[OF dor sub g0n dot, of sep] obtain st' where
    l: "sample_loop sep g0 others order ?st0 = Inr st'"
    and a: "map fst (msa st') = map fst (msa ?st0) @
             filter (\<lambda>s. \<forall>g \<in> set others. s \<in> ids_of (all_records ?st0) g) order"
    and b: "shared st' = shared ?st0 +
             length (filter (\<lambda>s. \<forall>g \<in> set others. s \<in> ids_of (all_records ?st0) g) order)"
    and c: "\<And>g. ids_of (all_records st') g =
                (if g = g0 \<or> g \<in> set others then ids_of (all_records ?st0) g - set order
                 else ids_of (all_records ?st0) g)"
    and d: "\<And>g. map_of (missing_genes st') g =
                (if g \<in> set others
                 then map_option (\<lambda>l. l @ filter (\<lambda>s. s \<notin> ids_of (all_records ?st0) g) order)
                        (map_of (missing_genes ?st0) g)
                 else map_of (missing_genes ?st0) g)"
    and k: "map fst (missing_genes st') = map fst (missing_genes ?st0)"
    by blast
  have fJ: "filter (\<lambda>s. \<forall>g \<in> set others. s \<in> ids_of ?all g) order = J"
    unfolding J_def by (rule filter_cong) (simp_all add: ids0)
  have a': "map fst (msa st') = J" using a fJ by simp
  have b': "shared st' = length J" using b fJ by simp
  have c': "ids_of (all_records st') g = sample_ids (parsed g) - sample_ids (parsed g0)"
    if "g \<in> set others" for g
    using that by (simp add: c ids0 so)
  have k': "map fst (missing_genes st') = ?genes"
    using k by (simp add: m0 comp_def)
  have d0: "map_of (missing_genes st') g0 = Some []"
    using g0n by (simp add: d m0_of)
  have d': "map_of (missing_genes st') g
              = Some (filter (\<lambda>s. s \<notin> sample_ids (parsed g)) order)"
    if "g \<in> set others" for g
    using that by (simp add: d m0_of ids0)
  let ?m1 = "extend_first g0 others (all_records st') (missing_genes st')"
  have k1: "map fst ?m1 = ?genes" by (simp add: extend_first_keys k')
  have v0: "set (the (map_of ?m1 g0))
              = (\<Union>g' \<in> set others. sample_ids (parsed g')) - sample_ids (parsed g0)"
    by (auto simp: extend_first_map_of d0 set_left_keys c')
  have v1: "set (the (map_of ?m1 g)) = sample_ids (parsed g0) - sample_ids (parsed g)"
    if "g \<in> set others" for g
    using that g0n so by (auto simp: extend_first_map_of d')
  have dk: "distinct (map fst ?m1)" using dg by (simp add: k1)
  have e1: "?m1 = map (\<lambda>g. (g, the (map_of ?m1 g))) ?genes"
    by (rule dict_by_keys[OF dk, unfolded k1])
  have "map (\<lambda>(gene, samples). (gene, set samples)) ?m1
      = map (\<lambda>(gene, samples). (gene, set samples)) (map (\<lambda>g. (g, the (map_of ?m1 g))) ?genes)"
    by (rule arg_cong[OF e1])
  also have "\<dots> = map (\<lambda>g. (g, set (the (map_of ?m1 g)))) ?genes"
    by (simp add: comp_def)
  also have "\<dots> = map (\<lambda>g. (g, if g = g0
                                 then (\<Union>g' \<in> set others. sample_ids (parsed g')) - sample_ids (parsed g0)
                                 else sample_ids (parsed g0) - sample_ids (parsed g)))
                     ?genes"
    by (rule map_cong) (auto simp: v0 v1)
  finally have rep: "map (\<lambda>(gene, samples). (gene, set samples)) ?m1
      = map (\<lambda>g. (g, if g = g0
                                 then (\<Union>g' \<in> set others. sample_ids (parsed g')) - sample_ids (parsed g0)
                                 else sample_ids (parsed g0) - sample_ids (parsed g)))
                     ?genes" .
  note u = concat_msa_unfold[OF ml l[unfolded mz_def]]
  show ?thesis
  proof (cases "(others \<noteq> [] \<and> J = []) \<or> (others = [] \<and> n = 0)")
    case True
    then show ?thesis
      unfolding u by (auto simp: b')
  next
    case False
    then have "concat_msa parsed ?genes sep rnd order =
       Inr \<lparr>msa_file = msa st', msa_shape = (n, shared st'),
             missing_report = map (\<lambda>(gene, samples). (gene, set samples)) ?m1\<rparr>"
      unfolding u by (auto simp: b')
    with False a' b' rep show ?thesis by simp
  qed
qed

section \<open>Concatenation: the claims\<close>

lemma sum_list_sep_widths:
  "(\<Sum>g\<leftarrow>gs. a + w g) = sum_list (map w gs) + length gs * (a::nat)"
  by (induction gs) simp_all

text \<open>
  C1. For the genes \<open>[A, B]\<close>, the trimmed alignment of \<open>A\<close> holding the samples x, y, z
  and that of \<open>B\<close> the samples y, z, w, \<open>concat_msa\<close> writes one record for each of
  y and z and no other, in whatever order the set of the first gene's samples is
  iterated; the report of missing samples gives w for \<open>A\<close> and x for \<open>B\<close>.
\<close>

theorem concat_two_genes_shared_and_missing:
  assumes "A \<noteq> B" and "distinct [x, y, z, w]"
    and "sample_ids (parsed A) = {x, y, z}" and "sample_ids (parsed B) = {y, z, w}"
    and "distinct order" and "set order = {x, y, z}"
  shows "\<exists>r. concat_msa parsed [A, B] sep rnd order = Inr r \<and>
           set (map fst (msa_file r)) = {y, z} \<and> distinct (map fst (msa_file r)) \<and>
           missing_report r = [(A, {w}), (B, {x})]"
proof -
  have dg: "distinct (A # [B])" using assms(1) by simp
  have so: "set order = sample_ids (parsed A)" using assms(3,6) by simp
  have "sample_ids (parsed A) \<noteq> {}" "sample_ids (parsed B) \<noteq> {}"
    unfolding assms(3,4) by simp_all
  then have ne: "parsed A \<noteq> []" "parsed B \<noteq> []"
    by (auto simp: sample_ids_def)
  have "\<forall>p \<in> set (read_all parsed [A, B]). snd p \<noteq> []"
    using ne by (simp add: read_all_distinct[OF dg] records_dict_empty)
  from msa_len_loop_ok[OF this, of rnd 0] obtain n where
    n: "msa_len_loop rnd (read_all parsed (A # [B])) 0 = Inr n"
    by blast
  let ?J = "filter (\<lambda>s. \<forall>g \<in> set [B]. s \<in> sample_ids (parsed g)) order"
  have ne4: "x \<noteq> y" "x \<noteq> z" "x \<noteq> w" "y \<noteq> z" "y \<noteq> w" "z \<noteq> w"
    using assms(2) by simp_all
  have "set ?J = {x, y, z} \<inter> {y, z, w}"
    by (simp add: assms(4) assms(6) Int_def)
  also have "\<dots> = {y, z}" using ne4 by blast
  finally have sJ: "set ?J = {y, z}" .
  then have "set ?J \<noteq> {}" by simp
  then have J: "?J \<noteq> []" unfolding set_empty .
  then have nc: "\<not> (([B] \<noteq> [] \<and> ?J = []) \<or> ([B] = [] \<and> n = 0))" by simp
  note c = concat_msa_join[OF dg assms(5) so n, of sep]
  from c nc have "\<exists>r. concat_msa parsed [A, B] sep rnd order = Inr r \<and>
      map fst (msa_file r) = ?J \<and> msa_shape r = (n, length ?J) \<and>
      missing_report r =
              map (\<lambda>g. (g, if g = A
                            then (\<Union>g' \<in> set [B]. sample_ids (parsed g')) - sample_ids (parsed A)
                            else sample_ids (parsed A) - sample_ids (parsed g))) [A, B]"
    by (simp only: if_False)
  then obtain r where
    r: "concat_msa parsed [A, B] sep rnd order = Inr r"
    and f: "map fst (msa_file r) = ?J"
    and m: "missing_report r =
              map (\<lambda>g. (g, if g = A
                            then (\<Union>g' \<in> set [B]. sample_ids (parsed g')) - sample_ids (parsed A)
                            else sample_ids (parsed A) - sample_ids (parsed g))) [A, B]"
    by blast
  have ma: "(\<Union>g' \<in> set [B]. sample_ids (parsed g')) - sample_ids (parsed A) = {w}"
    using ne4 by (auto simp: assms(3,4))
  have mb: "sample_ids (parsed A) - sample_ids (parsed B) = {x}"
    unfolding assms(3,4) using ne4 by auto
  have "B \<noteq> A" using assms(1) by blast
  then have mr: "missing_report r = [(A, {w}), (B, {x})]"
    unfolding m by (simp add: ma mb del: set_simps UN_simps)
  have d: "distinct (map fst (msa_file r))"
    unfolding f using assms(5) by simp
  have "set (map fst (msa_file r)) = {y, z}"
    unfolding f by (rule sJ)
  with r d mr show ?thesis by blast
qed

text \<open>
  C2. If every trimmed alignment is rectangular, gene \<open>g\<close> of width \<open>w g\<close>, every record
  written to the concatenated alignment is as long as the sum of the widths plus one
  separator for each gene but the first.
\<close>

theorem concat_row_length:
  assumes "concat_msa parsed genes sep rnd order = Inr r"
    and "\<forall>g \<in> set genes. \<forall>x \<in> set (parsed g). length (snd x) = w g"
  shows "\<forall>x \<in> set (msa_file r).
           length (snd x) = sum_list (map w genes) + (length genes - 1) * length sep"
proof -
  from assms(1) obtain g0 others where g: "genes = g0 # others"
    by (cases genes) (auto simp: concat_msa_def Let_def split: sum.splits)
  from assms(1) obtain n where n: "msa_len_loop rnd (read_all parsed (g0 # others)) 0 = Inr n"
    by (auto simp: concat_msa_def Let_def g split: sum.splits simp del: foldl_Cons)
  from assms(1) n obtain st where
    st: "sample_loop sep g0 others order
           \<lparr>all_records = read_all parsed (g0 # others),
              missing_genes = foldl (\<lambda>d gene. AList.update gene [] d) [] (g0 # others),
              msa = [], shared = 0\<rparr> = Inr st"
    by (auto simp: concat_msa_def Let_def g split: sum.splits)
  from assms(1) have mf: "msa_file r = msa st"
    unfolding g concat_msa_unfold[OF n st] by (auto split: if_splits)
  have "rect w (read_all parsed (g0 # others))"
    using assms(2) unfolding g by (rule rect_read_all)
  then have "\<forall>x \<in> set (msa st). length (snd x) = w g0 + (\<Sum>g\<leftarrow>others. length sep + w g)"
    by (intro sample_loop_width[OF st]) simp_all
  then show ?thesis
    by (simp add: mf g sum_list_sep_widths)
qed

lemma concat_abort_nonempty:
  assumes "genes \<noteq> []" and "distinct genes"
    and "distinct order" and "set order = sample_ids (parsed (hd genes))"
    and "\<forall>g \<in> set genes. parsed g \<noteq> [] \<and> (\<forall>x \<in> set (parsed g). length (snd x) = w g)"
  shows "(concat_msa parsed genes sep rnd order = Inl (SystemExit 1) \<longleftrightarrow>
            (length genes > 1 \<and> (\<Inter>g \<in> set genes. sample_ids (parsed g)) = {}) \<or>
            (length genes = 1 \<and> sum_list (map w genes) = 0)) \<and>
         (\<forall>e. concat_msa parsed genes sep rnd order = Inl e \<longrightarrow> e = SystemExit 1)"
proof -
  from assms(1) obtain g0 others where g: "genes = g0 # others" by (cases genes) auto
  have dg: "distinct (g0 # others)" using assms(2) by (simp add: g)
  have so: "set order = sample_ids (parsed g0)" using assms(4) by (simp add: g)
  have ra: "read_all parsed (g0 # others) = map (\<lambda>g. (g, records_dict (parsed g))) (g0 # others)"
    using dg by (rule read_all_distinct)
  have pw: "\<forall>p \<in> set (read_all parsed (g0 # others)).
          snd p \<noteq> [] \<and> (\<forall>x \<in> set (snd p). length (snd x) = w (fst p))"
  proof
    fix p
    assume "p \<in> set (read_all parsed (g0 # others))"
    then obtain g' where g': "g' \<in> set genes" and p: "p = (g', records_dict (parsed g'))"
      unfolding ra g by auto
    from assms(5) g' have a: "parsed g' \<noteq> []"
      and b: "\<forall>x \<in> set (parsed g'). length (snd x) = w g'"
      by blast+
    from widths_records_dict[OF b] a
    show "snd p \<noteq> [] \<and> (\<forall>x \<in> set (snd p). length (snd x) = w (fst p))"
      by (simp add: p records_dict_empty)
  qed
  have "(\<Sum>p\<leftarrow>read_all parsed (g0 # others). w (fst p)) = sum_list (map w (g0 # others))"
    unfolding ra by (simp add: comp_def)
  with msa_len_loop_rect[OF pw, of rnd 0]
  have n: "msa_len_loop rnd (read_all parsed (g0 # others)) 0 = Inr (sum_list (map w (g0 # others)))"
    by simp
  let ?J = "filter (\<lambda>s. \<forall>g \<in> set others. s \<in> sample_ids (parsed g)) order"
  have sJ: "set ?J = (\<Inter>g \<in> set (g0 # others). sample_ids (parsed g))"
    by (auto simp: so)
  have J: "?J = [] \<longleftrightarrow> (\<Inter>g \<in> set (g0 # others). sample_ids (parsed g)) = {}"
    unfolding sJ[symmetric] by (simp only: set_empty)
  have lg: "length genes > 1 \<longleftrightarrow> others \<noteq> []" "length genes = 1 \<longleftrightarrow> others = []"
    by (simp_all add: g)
  let ?C = "(others \<noteq> [] \<and> ?J = []) \<or> (others = [] \<and> sum_list (map w (g0 # others)) = 0)"
  have C: "?C \<longleftrightarrow> (length genes > 1 \<and> (\<Inter>g \<in> set genes. sample_ids (parsed g)) = {}) \<or>
            (length genes = 1 \<and> sum_list (map w genes) = 0)"
    unfolding lg J unfolding g ..
  note c = concat_msa_join[OF dg assms(3) so n, of sep]
  show ?thesis
  proof (cases ?C)
    case True
    with c have "concat_msa parsed (g0 # others) sep rnd order = Inl (SystemExit 1)"
      by (simp only: if_True)
    then have e: "concat_msa parsed genes sep rnd order = Inl (SystemExit 1)"
      by (simp only: g)
    show ?thesis
      unfolding C[symmetric] e using True by simp
  next
    case False
    with c have "\<exists>r. concat_msa parsed (g0 # others) sep rnd order = Inr r"
      by (simp only: if_False) blast
    then obtain r where e: "concat_msa parsed genes sep rnd order = Inr r"
      unfolding g by blast
    show ?thesis
      unfolding C[symmetric] e using False by simp
  qed
qed

lemma msa_len_loop_empty:
  "\<exists>p \<in> set al. snd p = [] \<Longrightarrow> msa_len_loop rnd al n = Inl IndexError"
proof (induction al arbitrary: n)
  case Nil
  then show ?case by simp
next
  case (Cons p al)
  obtain g d where p: "p = (g, d)" by (cases p)
  show ?case
  proof (cases "d = []")
    case True
    then show ?thesis by (simp add: p choice_def)
  next
    case False
    with Cons.prems have ex: "\<exists>p \<in> set al. snd p = []" by (simp add: p)
    from False have "map snd d \<noteq> []" by simp
    from choice_in_set[OF this, of "rnd g"] obtain x where "choice (rnd g) (map snd d) = Inr x"
      by blast
    with Cons.IH[OF ex] show ?thesis by (simp add: p)
  qed
qed

lemma concat_msa_no_width:
  "msa_len_loop rnd (read_all parsed genes) 0 = Inl e \<Longrightarrow>
   concat_msa parsed genes sep rnd order = Inl e"
  by (simp add: concat_msa_def Let_def)

text \<open>
  C5. For a list of distinct genes whose trimmed alignments are rectangular (an
  alignment without records counting as of width 0), \<open>concat_msa\<close> ends the run
  without a result exactly when there is more than one gene and no sample is in every
  alignment, or there is one gene and the width is zero. The run then ends by
  \<open>exit(1)\<close>, or by the \<open>IndexError\<close> of \<open>random.choice\<close> when an alignment has no record at
  all; samples dropped for single genes do not end it.
\<close>

theorem concat_abort_exactly:
  assumes "genes \<noteq> []" and "distinct genes"
    and "distinct order" and "set order = sample_ids (parsed (hd genes))"
    and "\<forall>g \<in> set genes. (\<forall>x \<in> set (parsed g). length (snd x) = w g) \<and>
                            (parsed g = [] \<longrightarrow> w g = 0)"
  shows "((\<exists>e. concat_msa parsed genes sep rnd order = Inl e) \<longleftrightarrow>
            (length genes > 1 \<and> (\<Inter>g \<in> set genes. sample_ids (parsed g)) = {}) \<or>
            (length genes = 1 \<and> sum_list (map w genes) = 0)) \<and>
         (\<forall>e. concat_msa parsed genes sep rnd order = Inl e \<longrightarrow>
              e = (if \<exists>g \<in> set genes. parsed g = [] then IndexError else SystemExit 1))"
proof (cases "\<exists>g \<in> set genes. parsed g = []")
  case True
  then obtain g where g: "g \<in> set genes" and pg: "parsed g = []" by blast
  have "(g, records_dict (parsed g)) \<in> set (read_all parsed genes)"
    using g by (simp add: read_all_distinct[OF assms(2)])
  then have "\<exists>p \<in> set (read_all parsed genes). snd p = []"
    using pg by (force simp: records_dict_empty)
  from msa_len_loop_empty[OF this, of rnd 0]
  have c: "concat_msa parsed genes sep rnd order = Inl IndexError"
    by (rule concat_msa_no_width)
  have ie: "sample_ids (parsed g) = {}" by (simp add: pg sample_ids_def)
  have cond: "(length genes > 1 \<and> (\<Inter>g \<in> set genes. sample_ids (parsed g)) = {}) \<or>
            (length genes = 1 \<and> sum_list (map w genes) = 0)"
  proof (cases "length genes = 1")
    case True
    then obtain g0 where g0: "genes = [g0]" by (cases genes) auto
    with g have "g = g0" by simp
    with assms(5) pg g0 have "w g0 = 0" by simp
    with g0 show ?thesis by simp
  next
    case False
    with assms(1) have l: "length genes > 1" by (cases genes) auto
    have "(\<Inter>g \<in> set genes. sample_ids (parsed g)) \<subseteq> sample_ids (parsed g)"
      using g by blast
    with ie l show ?thesis by simp
  qed
  from True c cond show ?thesis by simp
next
  case False
  with assms(5) have ne: "\<forall>g \<in> set genes. parsed g \<noteq> [] \<and>
      (\<forall>x \<in> set (parsed g). length (snd x) = w g)"
    by blast
  note n = concat_abort_nonempty[OF assms(1-4) ne, of sep rnd]
  have "(\<exists>e. concat_msa parsed genes sep rnd order = Inl e) \<longleftrightarrow>
        concat_msa parsed genes sep rnd order = Inl (SystemExit 1)"
    using n by blast
  with n False show ?thesis by simp
qed

text \<open>The example alignments, concatenated.\<close>

lemma ex_concat:
  "concat_msa ex_parsed [''A'', ''B''] ''SSSSSSSSSS'' (\<lambda>_. 0) [''z'', ''x'', ''y''] =
     Inr \<lparr>msa_file = [(''z'', ''ACGGSSSSSSSSSSTC''), (''y'', ''ACGASSSSSSSSSSTT'')],
           msa_shape = (6, 2),
           missing_report = [(''A'', {''w''}), (''B'', {''x''})]\<rparr>"
  by code_simp

lemma ex_parsed_ids:
  "sample_ids (ex_parsed ''A'') = {''x'', ''y'', ''z''}"
  "sample_ids (ex_parsed ''B'') = {''y'', ''z'', ''w''}"
  by (auto simp: sample_ids_def ex_parsed_def)

lemma ex_parsed_rect:
  "\<forall>g \<in> set [''A'', ''B'']. ex_parsed g \<noteq> [] \<and> (\<forall>x \<in> set (ex_parsed g). length (snd x) = ex_width g)"
  by (simp add: ex_parsed_def ex_width_def)

theorem concat_two_genes_shared_and_missing_witness:
  "concat_msa ex_parsed [''A'', ''B''] ''SSSSSSSSSS'' (\<lambda>_. 0) [''z'', ''x'', ''y''] =
     Inr \<lparr>msa_file = [(''z'', ''ACGGSSSSSSSSSSTC''), (''y'', ''ACGASSSSSSSSSSTT'')],
           msa_shape = (6, 2),
           missing_report = [(''A'', {''w''}), (''B'', {''x''})]\<rparr> \<and>
   set (map fst [(''z'', ''ACGGSSSSSSSSSSTC''), (''y'', ''ACGASSSSSSSSSSTT'')]) = {''y'', ''z''}"
proof -
  have h: "''A'' \<noteq> ''B''" "distinct [''x'', ''y'', ''z'', ''w'']"
    "distinct [''z'', ''x'', ''y'']" "set [''z'', ''x'', ''y''] = {''x'', ''y'', ''z''}"
    by auto
  from concat_two_genes_shared_and_missing [OF h(1,2) ex_parsed_ids h(3,4),
      of "''SSSSSSSSSS''" "\<lambda>_. 0"]
  obtain r where r: "concat_msa ex_parsed [''A'', ''B''] ''SSSSSSSSSS'' (\<lambda>_. 0) [''z'', ''x'', ''y'']
      = Inr r"
    and s: "set (map fst (msa_file r)) = {''y'', ''z''}"
    and m: "missing_report r = [(''A'', {''w''}), (''B'', {''x''})]"
    by blast
  from r have e: "r = \<lparr>msa_file = [(''z'', ''ACGGSSSSSSSSSSTC''), (''y'', ''ACGASSSSSSSSSSTT'')],
           msa_shape = (6, 2),
           missing_report = [(''A'', {''w''}), (''B'', {''x''})]\<rparr>"
    unfolding ex_concat by simp
  from s have "set (map fst [(''z'', ''ACGGSSSSSSSSSSTC''), (''y'', ''ACGASSSSSSSSSSTT'')])
      = {''y'', ''z''}"
    unfolding e by simp
  with ex_concat show ?thesis by (intro conjI)
qed

theorem concat_row_length_witness:
  "concat_msa ex_parsed [''A'', ''B''] ''SSSSSSSSSS'' (\<lambda>_. 0) [''z'', ''x'', ''y''] =
     Inr \<lparr>msa_file = [(''z'', ''ACGGSSSSSSSSSSTC''), (''y'', ''ACGASSSSSSSSSSTT'')],
           msa_shape = (6, 2),
           missing_report = [(''A'', {''w''}), (''B'', {''x''})]\<rparr> \<and>
   length ''ACGGSSSSSSSSSSTC'' = sum_list (map ex_width [''A'', ''B''])
                       + (length [''A'', ''B''] - 1) * length ''SSSSSSSSSS'' \<and>
   length ''ACGASSSSSSSSSSTT'' = sum_list (map ex_width [''A'', ''B''])
                       + (length [''A'', ''B''] - 1) * length ''SSSSSSSSSS'' \<and>
   sum_list (map ex_width [''A'', ''B'']) + (length [''A'', ''B''] - 1) * length ''SSSSSSSSSS''
     = 16"
proof -
  have w: "\<forall>g \<in> set [''A'', ''B'']. \<forall>x \<in> set (ex_parsed g). length (snd x) = ex_width g"
    using ex_parsed_rect by blast
  from concat_row_length [OF ex_concat w]
  have a: "\<forall>x \<in> set [(''z'', ''ACGGSSSSSSSSSSTC''), (''y'', ''ACGASSSSSSSSSSTT'')].
      length (snd x) = sum_list (map ex_width [''A'', ''B''])
                       + (length [''A'', ''B''] - 1) * length ''SSSSSSSSSS''"
    by simp
  from a have b: "length (snd (''z'', ''ACGGSSSSSSSSSSTC''))
      = sum_list (map ex_width [''A'', ''B''])
                       + (length [''A'', ''B''] - 1) * length ''SSSSSSSSSS''"
    by (rule bspec) simp
  from a have c: "length (snd (''y'', ''ACGASSSSSSSSSSTT''))
      = sum_list (map ex_width [''A'', ''B''])
                       + (length [''A'', ''B''] - 1) * length ''SSSSSSSSSS''"
    by (rule bspec) simp
  have d: "sum_list (map ex_width [''A'', ''B''])
      + (length [''A'', ''B''] - 1) * length ''SSSSSSSSSS'' = 16"
    by (simp add: ex_width_def)
  from b c have b': "length ''ACGGSSSSSSSSSSTC'' = sum_list (map ex_width [''A'', ''B''])
                       + (length [''A'', ''B''] - 1) * length ''SSSSSSSSSS''"
    and c': "length ''ACGASSSSSSSSSSTT'' = sum_list (map ex_width [''A'', ''B''])
                       + (length [''A'', ''B''] - 1) * length ''SSSSSSSSSS''"
    by (simp_all only: snd_conv)
  from ex_concat b' c' d show ?thesis by (intro conjI)
qed

lemma ex_empty_ids: "sample_ids (ex_empty g) = {''x'', ''y''}"
  by (simp add: sample_ids_def ex_empty_def)

theorem concat_abort_exactly_witness:
  "concat_msa ex_empty [''A''] ''SSSSSSSSSS'' (\<lambda>_. 0) [''y'', ''x''] = Inl (SystemExit 1) \<and>
   (\<Inter>g \<in> set [''A'', ''B'']. sample_ids (ex_parsed g)) = {''y'', ''z''} \<and>
   (\<nexists>e. concat_msa ex_parsed [''A'', ''B''] ''SSSSSSSSSS'' (\<lambda>_. 0) [''z'', ''x'', ''y'']
          = Inl e)"
proof -
  have h1: "[''A''] \<noteq> []" by simp
  have h2: "distinct [''A'']" by simp
  have h3: "distinct [''y'', ''x'']" by simp
  have h4: "set [''y'', ''x''] = sample_ids (ex_empty (hd [''A'']))"
    unfolding ex_empty_ids by (simp add: insert_commute)
  have h5: "\<forall>g \<in> set [''A'']. (\<forall>x \<in> set (ex_empty g). length (snd x) = (\<lambda>_. 0) g) \<and>
                            (ex_empty g = [] \<longrightarrow> (\<lambda>_. 0 :: nat) g = 0)"
    by (simp add: ex_empty_def)
  note T = concat_abort_exactly [where w = "\<lambda>_. 0" and sep = "''SSSSSSSSSS''"
      and rnd = "\<lambda>_. 0", OF h1 h2 h3 h4 h5]
  have c: "length [''A''] = 1 \<and> sum_list (map (\<lambda>_. 0 :: nat) [''A'']) = 0" by simp
  from T c obtain e where
    e: "concat_msa ex_empty [''A''] ''SSSSSSSSSS'' (\<lambda>_. 0) [''y'', ''x''] = Inl e"
    by blast
  have ne: "\<not> (\<exists>g \<in> set [''A'']. ex_empty g = [])" by (simp add: ex_empty_def)
  from T e have "e = (if \<exists>g \<in> set [''A'']. ex_empty g = [] then IndexError else SystemExit 1)"
    by blast
  with ne have "e = SystemExit 1" by (simp only: if_False)
  with e have 1: "concat_msa ex_empty [''A''] ''SSSSSSSSSS'' (\<lambda>_. 0) [''y'', ''x'']
      = Inl (SystemExit 1)"
    by simp
  have p1: "[''A'', ''B''] \<noteq> []" by simp
  have p2: "distinct [''A'', ''B'']" by simp
  have p3: "distinct [''z'', ''x'', ''y'']" by simp
  have p4: "set [''z'', ''x'', ''y''] = sample_ids (ex_parsed (hd [''A'', ''B'']))"
    by (simp add: ex_parsed_ids insert_commute)
  have p5: "\<forall>g \<in> set [''A'', ''B'']. (\<forall>x \<in> set (ex_parsed g). length (snd x) = ex_width g) \<and>
                            (ex_parsed g = [] \<longrightarrow> ex_width g = 0)"
    by (simp add: ex_parsed_def ex_width_def)
  note U = concat_abort_exactly [where sep = "''SSSSSSSSSS''" and rnd = "\<lambda>_. 0",
      OF p1 p2 p3 p4 p5]
  have i: "(\<Inter>g \<in> set [''A'', ''B'']. sample_ids (ex_parsed g)) = {''y'', ''z''}"
    by (auto simp: ex_parsed_ids)
  have l: "length [''A'', ''B''] \<noteq> 1" by simp
  have ni: "(\<Inter>g \<in> set [''A'', ''B'']. sample_ids (ex_parsed g)) \<noteq> {}"
    unfolding i by simp
  from U ni l have 2: "\<nexists>e. concat_msa ex_parsed [''A'', ''B''] ''SSSSSSSSSS'' (\<lambda>_. 0)
      [''z'', ''x'', ''y''] = Inl e"
    by blast
  from 1 i 2 show ?thesis by (intro conjI)
qed

end
